theory Spec2Isabelle
  imports Main "HOL-Library.Char_ord" "HOL-Library.List_Lexorder"
begin

section \<open>Strings\<close>

text \<open>
  Python strings are modelled as \<^typ>\<open>string\<close>; a character stands for one code point
  below 256. \<open>str.startswith\<close>, \<open>str.split(sep)\<close> for a one-character separator and
  \<open>sep.join\<close> are written out.
\<close>

definition startswith :: "string \<Rightarrow> string \<Rightarrow> bool" where
  "startswith s p = (take (length p) s = p)"

fun split_acc :: "char \<Rightarrow> string \<Rightarrow> string \<Rightarrow> string list" where
  "split_acc sep cur [] = [cur]"
| "split_acc sep cur (c # cs) =
     (if c = sep then cur # split_acc sep [] cs else split_acc sep (cur @ [c]) cs)"

definition str_split :: "char \<Rightarrow> string \<Rightarrow> string list" where
  "str_split sep s = split_acc sep [] s"

fun join :: "string \<Rightarrow> string list \<Rightarrow> string" where
  "join sep [] = []"
| "join sep [x] = x"
| "join sep (x # y # ys) = x @ sep @ join sep (y # ys)"

section \<open>The builtin registry\<close>

definition BUILTINS :: "string list" where
  "BUILTINS =
     [''ls'', ''cd'', ''pwd'', ''mkdir'', ''rm'', ''rmdir'', ''cat'', ''touch'', ''mv'', ''cp'',
      ''help'', ''exit'', ''quit'', ''clear'', ''sysinfo'', ''ps'', ''top'', ''history'']"

section \<open>Completion\<close>

text \<open>
  \<open>completer(text, state)\<close> reads the line editor (\<open>begidx\<close>), the environment variable
  \<open>PATH\<close> and the directories it names. These are the fields of \<open>comp_env\<close>:
  \<open>ce_listdir d\<close> is the result of \<open>os.listdir(d)\<close>, \<open>None\<close> when it raises;
  \<open>ce_path_complete\<close> gives the candidates of \<open>path_complete\<close>, which globs the
  file system, for the argument position.
\<close>

record comp_env =
  ce_readline_available :: bool
  ce_begidx :: nat
  ce_PATH :: "string option"
  ce_listdir :: "string \<Rightarrow> string list option"
  ce_path_complete :: "string \<Rightarrow> string list"

text \<open>The inner loop \<open>for f in os.listdir(d)\<close>, on the pair \<open>(candidates, seen)\<close>.\<close>

fun scan_entries :: "string \<Rightarrow> string list \<Rightarrow> string list \<times> string set \<Rightarrow> string list \<times> string set" where
  "scan_entries text [] (candidates, seen) = (candidates, seen)"
| "scan_entries text (f # fs) (candidates, seen) =
     (if startswith f text \<and> f \<notin> seen
      then scan_entries text fs (candidates @ [f], insert f seen)
      else scan_entries text fs (candidates, seen))"

text \<open>The outer loop \<open>for d in path_dirs\<close>: an empty name and a directory that cannot be
  listed are skipped.\<close>

fun scan_path_dirs ::
  "(string \<Rightarrow> string list option) \<Rightarrow> string \<Rightarrow> string list \<Rightarrow> string list \<times> string set
     \<Rightarrow> string list \<times> string set" where
  "scan_path_dirs listdir text [] acc = acc"
| "scan_path_dirs listdir text (d # ds) acc =
     (if d = [] then scan_path_dirs listdir text ds acc
      else case listdir d of
             None \<Rightarrow> scan_path_dirs listdir text ds acc
           | Some entries \<Rightarrow> scan_path_dirs listdir text ds (scan_entries text entries acc))"

definition builtin_matches :: "string \<Rightarrow> string list" where
  "builtin_matches text = filter (\<lambda>c. startswith c text) BUILTINS"

definition begidx_of :: "comp_env \<Rightarrow> nat" where
  "begidx_of env = (if ce_readline_available env then ce_begidx env else 0)"

definition candidates_of :: "comp_env \<Rightarrow> string \<Rightarrow> string list" where
  "candidates_of env text =
     (let begidx = begidx_of env in
      if begidx = 0 then
        (let candidates = builtin_matches text;
             path_dirs = str_split (CHR '':'') (case ce_PATH env of None \<Rightarrow> [] | Some p \<Rightarrow> p);
             seen = set candidates
         in fst (scan_path_dirs (ce_listdir env) text path_dirs (candidates, seen)))
      else ce_path_complete env text)"

text \<open>\<open>candidates[state]\<close>, with \<open>IndexError\<close> turned into \<open>None\<close>; the line editor
  counts \<open>state\<close> from 0.\<close>

definition completer :: "comp_env \<Rightarrow> string \<Rightarrow> nat \<Rightarrow> string option" where
  "completer env text state =
     (let candidates = candidates_of env text in
      if state < length candidates then Some (candidates ! state) else None)"

section \<open>Exceptions\<close>

text \<open>
  The exceptions the modelled code raises, all instances of Python's \<open>Exception\<close>: a
  \<open>ValueError\<close> with its message; an \<open>OSError\<close> with its error number and the path it
  names, the two paths it names, or no path (\<open>FileNotFoundError\<close> is an \<open>OSError\<close> with
  \<open>ENOENT\<close>, \<open>FileExistsError\<close> one with \<open>EEXIST\<close>); a \<open>FileNotFoundError\<close> made from a
  message alone; \<open>shutil.Error\<close>, which is an \<open>OSError\<close> too; and any other exception with
  its message.
  An interrupt is not among them: it is an event of the input (see \<open>event\<close> below).
\<close>

datatype errno = ENOENT | EEXIST | ENOTDIR | EISDIR | ENOTEMPTY | EINVAL | ELOOP | EBUSY

datatype py_exc =
    ValueError string
  | OSError errno string
  | OSError2 errno string string
  | OSError0 errno
  | FileNotFoundError string
  | ShutilError string
  | OtherException string

definition squote :: char where "squote = CHR 0x27"
definition dquote :: char where "dquote = CHR 0x22"
definition backslash :: char where "backslash = CHR 0x5C"

fun strerror :: "errno \<Rightarrow> string" where
  "strerror ENOENT = ''[Errno 2] No such file or directory''"
| "strerror EEXIST = ''[Errno 17] File exists''"
| "strerror ENOTDIR = ''[Errno 20] Not a directory''"
| "strerror EISDIR = ''[Errno 21] Is a directory''"
| "strerror ENOTEMPTY = ''[Errno 39] Directory not empty''"
| "strerror EINVAL = ''[Errno 22] Invalid argument''"
| "strerror ELOOP = ''[Errno 40] Too many levels of symbolic links''"
| "strerror EBUSY = ''[Errno 16] Device or resource busy''"

text \<open>
  \<open>repr(s)\<close> for a string of code points below 256: between double quotes when the
  string holds a single quote and no double quote, else between single quotes; the
  backslash and the quote in use are escaped, and the code points that are not printable
  are written \<open>\t\<close>, \<open>\n\<close>, \<open>\r\<close> or \<open>\xNN\<close>.
\<close>

definition hex_digit :: "nat \<Rightarrow> char" where
  "hex_digit d = ''0123456789abcdef'' ! d"

definition repr_char :: "char \<Rightarrow> char \<Rightarrow> string" where
  "repr_char q c =
     (let n = (of_char c :: nat) in
      if c = backslash \<or> c = q then [backslash, c]
      else if n = 9 then [backslash, CHR ''t'']
      else if n = 10 then [backslash, CHR ''n'']
      else if n = 13 then [backslash, CHR ''r'']
      else if n < 32 \<or> n = 127 \<or> (128 \<le> n \<and> n \<le> 160) \<or> n = 173
        then [backslash, CHR ''x'', hex_digit (n div 16), hex_digit (n mod 16)]
      else [c])"

definition py_repr :: "string \<Rightarrow> string" where
  "py_repr s =
     (let q = (if squote \<in> set s \<and> dquote \<notin> set s then dquote else squote)
      in [q] @ concat (map (repr_char q) s) @ [q])"

text \<open>\<open>str(e)\<close>. The paths of an \<open>OSError\<close> are shown as \<open>repr\<close> shows them.\<close>

fun exc_str :: "py_exc \<Rightarrow> string" where
  "exc_str (ValueError m) = m"
| "exc_str (OSError en p) = strerror en @ '': '' @ py_repr p"
| "exc_str (OSError2 en p q) = strerror en @ '': '' @ py_repr p @ '' -> '' @ py_repr q"
| "exc_str (OSError0 en) = strerror en"
| "exc_str (FileNotFoundError m) = m"
| "exc_str (ShutilError m) = m"
| "exc_str (OtherException m) = m"

fun is_FileNotFoundError :: "py_exc \<Rightarrow> bool" where
  "is_FileNotFoundError (OSError en p) = (en = ENOENT)"
| "is_FileNotFoundError (OSError2 en p q) = (en = ENOENT)"
| "is_FileNotFoundError (OSError0 en) = (en = ENOENT)"
| "is_FileNotFoundError (FileNotFoundError m) = True"
| "is_FileNotFoundError e = False"

fun is_OSError :: "py_exc \<Rightarrow> bool" where
  "is_OSError (ValueError m) = False"
| "is_OSError (OtherException m) = False"
| "is_OSError e = True"

section \<open>The tokenizer\<close>

text \<open>
  \<open>main_loop\<close> tokenizes a line with \<open>shlex.split(line)\<close>: the standard library's lexer
  in POSIX mode with \<open>whitespace_split = True\<close> and no comment characters. The model
  follows \<open>shlex.read_token\<close>: the lexer's state (\<open>' '\<close>, \<open>'a'\<close>, a quote character, the
  escape character), \<open>escapedstate\<close>, the token so far and the flag \<open>quoted\<close>. The
  \<open>while\<close> loop of \<open>read_token\<close> and the iteration \<open>list(lex)\<close> are one recursion on
  the rest of the input: where \<open>read_token\<close> leaves its loop with a token, the token is
  put in front of the tokens of the rest, read with \<open>quoted\<close>, \<open>escapedstate\<close> and the
  token reset. In the state \<open>' '\<close> the branches for \<open>wordchars\<close> and for
  \<open>whitespace_split\<close> do the same, and no word character is a quote, so they are one
  branch here.
\<close>

definition sh_whitespace :: "char list" where
  "sh_whitespace = [CHR '' '', CHR 0x09, CHR 0x0D, CHR 0x0A]"

definition sh_quotes :: "char list" where
  "sh_quotes = [squote, dquote]"

definition sh_escape :: "char list" where
  "sh_escape = [backslash]"

definition sh_escapedquotes :: "char list" where
  "sh_escapedquotes = [dquote]"

datatype lex_state = In_Space | In_Word | In_Quote char | In_Escape char

definition emit :: "string \<Rightarrow> py_exc + string list \<Rightarrow> py_exc + string list" where
  "emit tok r = (case r of Inl e \<Rightarrow> Inl e | Inr toks \<Rightarrow> Inr (tok # toks))"

text \<open>At the end of the input: the result of \<open>read_token\<close> is \<open>None\<close> when the token is
  empty and nothing was quoted.\<close>

definition at_eof :: "string \<Rightarrow> bool \<Rightarrow> py_exc + string list" where
  "at_eof tok quoted = (if \<not> quoted \<and> tok = [] then Inr [] else Inr [tok])"

fun read_tokens :: "lex_state \<Rightarrow> lex_state \<Rightarrow> string \<Rightarrow> bool \<Rightarrow> string \<Rightarrow> py_exc + string list" where
  "read_tokens In_Space es tok quoted [] = at_eof tok quoted"
| "read_tokens In_Word es tok quoted [] = at_eof tok quoted"
| "read_tokens (In_Quote q) es tok quoted [] = Inl (ValueError ''No closing quotation'')"
| "read_tokens (In_Escape e) es tok quoted [] = Inl (ValueError ''No escaped character'')"
| "read_tokens In_Space es tok quoted (c # cs) =
     (if c \<in> set sh_whitespace then
        (if tok \<noteq> [] \<or> quoted then emit tok (read_tokens In_Space In_Space [] False cs)
         else read_tokens In_Space es tok quoted cs)
      else if c \<in> set sh_escape then read_tokens (In_Escape c) In_Word tok quoted cs
      else if c \<in> set sh_quotes then read_tokens (In_Quote c) es tok quoted cs
      else read_tokens In_Word es [c] quoted cs)"
| "read_tokens (In_Quote q) es tok quoted (c # cs) =
     (if c = q then read_tokens In_Word es tok True cs
      else if c \<in> set sh_escape \<and> q \<in> set sh_escapedquotes
        then read_tokens (In_Escape c) (In_Quote q) tok True cs
      else read_tokens (In_Quote q) es (tok @ [c]) True cs)"
| "read_tokens (In_Escape e) es tok quoted (c # cs) =
     (let tok' = (case es of In_Quote q \<Rightarrow> if c \<noteq> e \<and> c \<noteq> q then tok @ [e] else tok
                           | _ \<Rightarrow> tok)
      in read_tokens es es (tok' @ [c]) quoted cs)"
| "read_tokens In_Word es tok quoted (c # cs) =
     (if c \<in> set sh_whitespace then
        (if tok \<noteq> [] \<or> quoted then emit tok (read_tokens In_Space In_Space [] False cs)
         else read_tokens In_Space es tok quoted cs)
      else if c \<in> set sh_quotes then read_tokens (In_Quote c) es tok quoted cs
      else if c \<in> set sh_escape then read_tokens (In_Escape c) In_Word tok quoted cs
      else read_tokens In_Word es (tok @ [c]) quoted cs)"

definition shlex_split :: "string \<Rightarrow> py_exc + string list" where
  "shlex_split s = read_tokens In_Space In_Space [] False s"

text \<open>A character that the lexer takes as it stands, and a token made of such characters.\<close>

definition plain_char :: "char \<Rightarrow> bool" where
  "plain_char c = (c \<notin> set sh_whitespace \<and> c \<notin> set sh_quotes \<and> c \<notin> set sh_escape)"

definition plain_token :: "string \<Rightarrow> bool" where
  "plain_token t = (t \<noteq> [] \<and> list_all plain_char t)"

section \<open>The interpreter loop\<close>

text \<open>\<open>str.isspace\<close> on the code points below 256, and \<open>str.strip()\<close>.\<close>

definition py_isspace :: "char \<Rightarrow> bool" where
  "py_isspace c =
     (let n = (of_char c :: nat)
      in (9 \<le> n \<and> n \<le> 13) \<or> (28 \<le> n \<and> n \<le> 32) \<or> n = 133 \<or> n = 160)"

definition str_strip :: "string \<Rightarrow> string" where
  "str_strip s = rev (dropWhile py_isspace (rev (dropWhile py_isspace s)))"

text \<open>The keys of the dictionary \<open>DISPATCH\<close>, in the order they are written.\<close>

definition DISPATCH_names :: "string list" where
  "DISPATCH_names =
     [''ls'', ''cd'', ''pwd'', ''mkdir'', ''rm'', ''rmdir'', ''cat'', ''touch'', ''mv'', ''cp'',
      ''clear'', ''help'', ''sysinfo'', ''ps'', ''top'', ''history'']"

text \<open>
  What \<open>input(prompt)\<close> gives: a line, or one of the two exceptions the loop catches
  around it. The loop runs on the list of the events still to come; when the list is
  used up the loop is in \<open>input\<close>, waiting (\<open>Reading\<close>).
\<close>

datatype event = Line string | KeyboardInterrupt | EOFError

datatype outcome = Exited | Raised py_exc | Reading

text \<open>
  The loop works on the process state \<open>'w\<close> (file system, working directory, history
  file, the processes it starts) through these operations. \<open>op_dispatch cmd args\<close> is
  the call \<open>DISPATCH[cmd](args)\<close>: the handler's text, or the exception it raises, and
  the state it leaves. \<open>run_external_command\<close> catches every exception itself and
  returns a text. \<open>op_input line\<close> is what \<open>input(prompt)\<close> leaves behind when it
  returns \<open>line\<close>: with a line editor, the line is recorded in the editor's history.
\<close>

record 'w shell_ops =
  op_getcwd :: "'w \<Rightarrow> py_exc + string"
  op_input :: "string \<Rightarrow> 'w \<Rightarrow> 'w"
  op_load_history :: "'w \<Rightarrow> 'w"
  op_save_history_on_exit :: "'w \<Rightarrow> 'w"
  op_append_history_line :: "string \<Rightarrow> 'w \<Rightarrow> 'w"
  op_dispatch :: "string \<Rightarrow> string list \<Rightarrow> 'w \<Rightarrow> (py_exc + string) \<times> 'w"
  op_cmd_help :: "string list \<Rightarrow> string"
  op_run_external_command :: "string list \<Rightarrow> 'w \<Rightarrow> string \<times> 'w"

text \<open>The result of the rest of the loop, after the lines \<open>ps\<close> have been printed.\<close>

definition printed :: "string list \<Rightarrow> outcome \<times> 'w \<times> string list \<Rightarrow> outcome \<times> 'w \<times> string list" where
  "printed ps r = (case r of (oc, w, out) \<Rightarrow> (oc, w, ps @ out))"

text \<open>\<open>if res: print(res)\<close>\<close>

definition print_if :: "string \<Rightarrow> string list" where
  "print_if res = (if res \<noteq> [] then [res] else [])"

text \<open>
  The body of \<open>while True\<close> in \<open>main_loop\<close>. The result is how the loop was left, the
  state, and the lines printed. The prompt is built from \<open>os.getcwd()\<close> inside the
  \<open>try\<close> that catches only \<open>KeyboardInterrupt\<close> and \<open>EOFError\<close>; \<open>shlex.split\<close> is
  called outside any \<open>try\<close>.
\<close>

fun loop :: "'w shell_ops \<Rightarrow> event list \<Rightarrow> 'w \<Rightarrow> outcome \<times> 'w \<times> string list" where
  "loop ops [] w =
     (case op_getcwd ops w of
        Inl e \<Rightarrow> (Raised e, w, [])
      | Inr cwd \<Rightarrow> (Reading, w, []))"
| "loop ops (ev # evs) w =
     (case op_getcwd ops w of
        Inl e \<Rightarrow> (Raised e, w, [])
      | Inr cwd \<Rightarrow>
         (case ev of
            KeyboardInterrupt \<Rightarrow> (Exited, w, [[]])
          | EOFError \<Rightarrow> (Exited, w, [[]])
          | Line line \<Rightarrow>
              if str_strip line = [] then loop ops evs (op_input ops line w)
              else
                (let w1 = op_append_history_line ops line (op_input ops line w) in
                 case shlex_split line of
                   Inl e \<Rightarrow> (Raised e, w1, [])
                 | Inr parts \<Rightarrow>
                    (case parts of
                       [] \<Rightarrow> loop ops evs w1
                     | cmd # args \<Rightarrow>
                        if cmd = ''exit'' \<or> cmd = ''quit'' then (Exited, w1, [])
                        else if cmd \<in> set DISPATCH_names then
                          (case op_dispatch ops cmd args w1 of
                             (Inr res, w2) \<Rightarrow> printed (print_if res) (loop ops evs w2)
                           | (Inl e, w2) \<Rightarrow>
                               printed (print_if (cmd @ '': error: '' @ exc_str e)) (loop ops evs w2))
                        else if cmd = ''?'' \<or> cmd = ''help'' then
                          printed [op_cmd_help ops args] (loop ops evs w1)
                        else
                          (case op_run_external_command ops parts w1 of
                             (res, w2) \<Rightarrow> printed (print_if res) (loop ops evs w2))))))"

text \<open>\<open>main_loop\<close>: the history is loaded and \<open>os.getcwd()\<close> is called once before
  the \<open>try\<close>; then the loop runs, and \<open>finally\<close> saves the history however the loop was
  left.\<close>

definition main_loop :: "'w shell_ops \<Rightarrow> event list \<Rightarrow> 'w \<Rightarrow> outcome \<times> 'w \<times> string list" where
  "main_loop ops evs w =
     (let w0 = op_load_history ops w in
      case op_getcwd ops w0 of
        Inl e \<Rightarrow> (Raised e, w0, [])
      | Inr cwd \<Rightarrow>
         (case loop ops evs w0 of
            (oc, w', out) \<Rightarrow> (oc, op_save_history_on_exit ops w', out)))"

text \<open>What the program's last block prints for an exception that left \<open>main_loop\<close>:
  \<open>print("Fatal error:", e)\<close>.\<close>

fun fatal_report :: "outcome \<Rightarrow> string list" where
  "fatal_report (Raised e) = [''Fatal error: '' @ exc_str e]"
| "fatal_report oc = []"

section \<open>Paths\<close>

text \<open>
  Paths are POSIX path strings. \<open>components\<close> gives the names of a path, without the
  empty names and the names \<open>.\<close>, as \<open>pathlib\<close> and the kernel read it. \<open>Path p\<close> is
  \<open>str(Path(p))\<close>, \<open>path_name p\<close> is \<open>Path(p).name\<close> and \<open>path_div d n\<close> is
  \<open>str(Path(d) / n)\<close>.
\<close>

definition components :: "string \<Rightarrow> string list" where
  "components p = filter (\<lambda>c. c \<noteq> [] \<and> c \<noteq> ''.'') (str_split (CHR ''/'') p)"

definition path_root :: "string \<Rightarrow> string" where
  "path_root p =
     (if startswith p ''//'' \<and> \<not> startswith p ''///'' then ''//''
      else if startswith p ''/'' then ''/'' else [])"

definition Path :: "string \<Rightarrow> string" where
  "Path p =
     (if components p = [] \<and> path_root p = [] then ''.''
      else path_root p @ join ''/'' (components p))"

definition path_name :: "string \<Rightarrow> string" where
  "path_name p = (if components p = [] then [] else last (components p))"

definition os_path_join :: "string \<Rightarrow> string \<Rightarrow> string" where
  "os_path_join a b =
     (if startswith b ''/'' then b
      else if a = [] \<or> last a = CHR ''/'' then a @ b
      else a @ ''/'' @ b)"

definition path_div :: "string \<Rightarrow> string \<Rightarrow> string" where
  "path_div d n = Path (os_path_join d n)"

definition os_path_basename :: "string \<Rightarrow> string" where
  "os_path_basename p = last (str_split (CHR ''/'') p)"

section \<open>The file system\<close>

text \<open>
  The state of the process that the builtins read and change: the file system, the
  working directory, the home directory of the user (as \<open>os.path.expanduser\<close> finds it
  from \<open>HOME\<close> or the password database) and the home directories of the users the
  password database knows.

  The file system is a list of entries: the place of an entry is its list of names from
  the root, and an entry is a regular file with its text, a directory or a symbolic link
  with its target. The root \<open>[]\<close> is a directory. The names below a place are the entries
  whose place is one name longer. The working directory is a place. There is one device,
  every file has one name, and every entry may be read and written; a name and a path may
  have any length, and a path holds no NUL character. A working directory that has been
  removed is a place with no entry: every relative path fails there with \<open>ENOENT\<close>,
  also \<open>.\<close> and \<open>..\<close>, which the kernel still finds.
\<close>

datatype node = File string | Dir | Symlink string

type_synonym fs = "(string list \<times> node) list"

record world =
  w_fs :: fs
  w_cwd :: "string list"
  w_home :: string
  w_user_home :: "string \<Rightarrow> string option"

definition fs_lookup :: "fs \<Rightarrow> string list \<Rightarrow> node option" where
  "fs_lookup fs k = (if k = [] then Some Dir else map_of fs k)"

definition fs_del :: "string list \<Rightarrow> fs \<Rightarrow> fs" where
  "fs_del k fs = filter (\<lambda>e. fst e \<noteq> k) fs"

definition fs_put :: "string list \<Rightarrow> node \<Rightarrow> fs \<Rightarrow> fs" where
  "fs_put k n fs = (k, n) # fs_del k fs"

definition children :: "fs \<Rightarrow> string list \<Rightarrow> string list" where
  "children fs k = remdups (map (\<lambda>e. last (fst e)) (filter (\<lambda>e. fst e \<noteq> [] \<and> butlast (fst e) = k) fs))"

text \<open>
  How the kernel reads a path: the names between the slashes, whether the path starts at
  the root, and whether it ends with a slash after a name. In \<open>names_of\<close> the slash at the
  end is an empty name after the last name.
\<close>

definition path_names :: "string \<Rightarrow> string list" where
  "path_names p = filter (\<lambda>c. c \<noteq> []) (str_split (CHR ''/'') p)"

definition trailing_slash :: "string \<Rightarrow> bool" where
  "trailing_slash p = (path_names p \<noteq> [] \<and> p \<noteq> [] \<and> last p = CHR ''/'')"

definition names_of :: "string \<Rightarrow> string list" where
  "names_of p = path_names p @ (if trailing_slash p then [[]] else [])"

definition is_absolute :: "string \<Rightarrow> bool" where
  "is_absolute p = startswith p ''/''"

text \<open>
  The walk of the kernel along the names of a path, from the place \<open>at\<close>. Before a name
  is read the place must be a directory. The names \<open>.\<close> and the empty name stay, \<open>..\<close>
  steps to the directory above (the root is above itself). A symbolic link that is not the
  last name is followed, and so is one that is the last name unless the walk is
  \<open>No_follow\<close>: the names of its target are walked in place of the link, from the root
  or from the directory of the link. At most \<open>fuel\<close> links are followed on the whole
  walk. A walk to open a file for writing (\<open>Create\<close>) refuses a last name that is \<open>.\<close>
  or \<open>..\<close> or is followed by a slash. The result is the place reached, which has no
  entry when the last name is not there, and the number of links that may still be
  followed.
\<close>

datatype lookup_mode = Follow | No_follow | Create

function resolve ::
  "fs \<Rightarrow> nat \<Rightarrow> string list \<Rightarrow> string list \<Rightarrow> lookup_mode \<Rightarrow> errno + (nat \<times> string list)" where
  "resolve fs fuel at [] mode = Inr (fuel, at)"
| "resolve fs fuel at (c # cs) mode =
     (case fs_lookup fs at of
        None \<Rightarrow> Inl ENOENT
      | Some Dir \<Rightarrow>
          if mode = Create \<and> (cs = [[]] \<or> (cs = [] \<and> (c = ''.'' \<or> c = ''..''))) then Inl EISDIR
          else if c = [] \<or> c = ''.'' then resolve fs fuel at cs mode
          else if c = ''..'' then resolve fs fuel (butlast at) cs mode
          else
            (case fs_lookup fs (at @ [c]) of
               Some (Symlink t) \<Rightarrow>
                 if cs = [] \<and> mode = No_follow then Inr (fuel, at @ [c])
                 else
                   (case fuel of
                      0 \<Rightarrow> Inl ELOOP
                    | Suc n \<Rightarrow>
                        if t = [] then Inl ENOENT
                        else resolve fs n (if is_absolute t then [] else at) (names_of t @ cs) mode)
             | _ \<Rightarrow> resolve fs fuel (at @ [c]) cs mode)
      | Some n \<Rightarrow> Inl ENOTDIR)"
  by pat_completeness auto
termination
  by (relation "measures [\<lambda>(fs, fuel, at, cs, mode). fuel, \<lambda>(fs, fuel, at, cs, mode). length cs]") auto

text \<open>The place a path leads to, from the root or from the working directory. The
  kernel follows at most 40 links; the empty path leads nowhere.\<close>

definition start_dir :: "world \<Rightarrow> string \<Rightarrow> string list" where
  "start_dir w p = (if is_absolute p then [] else w_cwd w)"

definition namei :: "world \<Rightarrow> string \<Rightarrow> string list \<Rightarrow> lookup_mode \<Rightarrow> errno + string list" where
  "namei w p names mode =
     (if p = [] then Inl ENOENT
      else case resolve (w_fs w) 40 (start_dir w p) names mode of
             Inl en \<Rightarrow> Inl en
           | Inr (fuel, k) \<Rightarrow> Inr k)"

text \<open>The entry at the place found.\<close>

definition found :: "world \<Rightarrow> errno + string list \<Rightarrow> errno + (string list \<times> node)" where
  "found w r =
     (case r of
        Inl en \<Rightarrow> Inl en
      | Inr k \<Rightarrow> (case fs_lookup (w_fs w) k of None \<Rightarrow> Inl ENOENT | Some n \<Rightarrow> Inr (k, n)))"

text \<open>\<open>os.stat\<close> and \<open>os.lstat\<close>: the place and the entry found. \<open>dir_entry\<close> is the
  entry that a call which removes or renames takes for the path: a slash at the end does
  not make it follow a link.\<close>

definition os_stat :: "world \<Rightarrow> string \<Rightarrow> errno + (string list \<times> node)" where
  "os_stat w p = found w (namei w p (names_of p) Follow)"

definition os_lstat :: "world \<Rightarrow> string \<Rightarrow> errno + (string list \<times> node)" where
  "os_lstat w p = found w (namei w p (names_of p) No_follow)"

definition dir_entry :: "world \<Rightarrow> string \<Rightarrow> errno + (string list \<times> node)" where
  "dir_entry w p = found w (namei w p (path_names p) No_follow)"

text \<open>\<open>Path.is_dir()\<close>, \<open>Path.is_symlink()\<close> and \<open>Path.exists()\<close>, and
  \<open>os.path.isdir\<close>, \<open>os.path.islink\<close> and \<open>os.path.exists\<close>: false where the path
  cannot be looked up.\<close>

definition is_dir :: "world \<Rightarrow> string \<Rightarrow> bool" where
  "is_dir w p = (case os_stat w p of Inr (k, Dir) \<Rightarrow> True | _ \<Rightarrow> False)"

definition is_symlink :: "world \<Rightarrow> string \<Rightarrow> bool" where
  "is_symlink w p = (case os_lstat w p of Inr (k, Symlink t) \<Rightarrow> True | _ \<Rightarrow> False)"

definition path_exists :: "world \<Rightarrow> string \<Rightarrow> bool" where
  "path_exists w p = (case os_stat w p of Inr r \<Rightarrow> True | Inl en \<Rightarrow> False)"

definition os_listdir :: "world \<Rightarrow> string \<Rightarrow> py_exc + string list" where
  "os_listdir w p =
     (case os_stat w p of
        Inl en \<Rightarrow> Inl (OSError en p)
      | Inr (k, Dir) \<Rightarrow> Inr (children (w_fs w) k)
      | Inr (k, n) \<Rightarrow> Inl (OSError ENOTDIR p))"

text \<open>\<open>os.rmdir\<close>: the root, \<open>.\<close> and \<open>..\<close> are refused, and so is a directory that
  is not empty.\<close>

definition os_rmdir :: "world \<Rightarrow> string \<Rightarrow> py_exc + world" where
  "os_rmdir w p =
     (case namei w p (path_names p) No_follow of
        Inl en \<Rightarrow> Inl (OSError en p)
      | Inr k \<Rightarrow>
          if path_names p = [] then Inl (OSError EBUSY p)
          else if last (path_names p) = ''.'' then Inl (OSError EINVAL p)
          else if last (path_names p) = ''..'' then Inl (OSError ENOTEMPTY p)
          else
            (case fs_lookup (w_fs w) k of
               None \<Rightarrow> Inl (OSError ENOENT p)
             | Some Dir \<Rightarrow>
                 if children (w_fs w) k \<noteq> [] then Inl (OSError ENOTEMPTY p)
                 else Inr (w\<lparr>w_fs := fs_del k (w_fs w)\<rparr>)
             | Some n \<Rightarrow> Inl (OSError ENOTDIR p)))"

text \<open>\<open>os.unlink\<close> removes a file or a link, the link itself.\<close>

definition os_unlink :: "world \<Rightarrow> string \<Rightarrow> py_exc + world" where
  "os_unlink w p =
     (case dir_entry w p of
        Inl en \<Rightarrow> Inl (OSError en p)
      | Inr (k, Dir) \<Rightarrow> Inl (OSError EISDIR p)
      | Inr (k, n) \<Rightarrow>
          if trailing_slash p then Inl (OSError ENOTDIR p)
          else Inr (w\<lparr>w_fs := fs_del k (w_fs w)\<rparr>))"

text \<open>\<open>os.path.expanduser\<close>.\<close>

definition rstrip_char :: "char \<Rightarrow> string \<Rightarrow> string" where
  "rstrip_char c s = rev (dropWhile (\<lambda>x. x = c) (rev s))"

definition expanduser :: "world \<Rightarrow> string \<Rightarrow> string" where
  "expanduser w p =
     (if \<not> startswith p ''~'' then p
      else
        (let i = length (takeWhile (\<lambda>c. c \<noteq> CHR ''/'') p);
             userhome = (if i = 1 then Some (w_home w) else w_user_home w (take (i - 1) (drop 1 p)))
         in case userhome of
              None \<Rightarrow> p
            | Some h \<Rightarrow>
                (let r = rstrip_char (CHR ''/'') h @ drop i p in if r = [] then ''/'' else r)))"

section \<open>The builtins \<open>ls\<close> and \<open>rm\<close>\<close>

text \<open>\<open>list_dir\<close>: the names in sorted order; the mark of a name is \<open>/\<close> when
  \<open>is_dir\<close> holds, else \<open>@\<close> when \<open>is_symlink\<close> holds.\<close>

definition mark_entry :: "world \<Rightarrow> string \<Rightarrow> string \<Rightarrow> string" where
  "mark_entry w path name =
     (let p = path_div path name in
      if is_dir w p then name @ ''/''
      else if is_symlink w p then name @ ''@''
      else name)"

definition list_dir :: "world \<Rightarrow> string \<Rightarrow> py_exc + string list" where
  "list_dir w path =
     (case os_listdir w path of
        Inl e \<Rightarrow> Inl e
      | Inr entries \<Rightarrow> Inr (map (mark_entry w path) (sort entries)))"

definition cmd_ls :: "string list \<Rightarrow> world \<Rightarrow> string" where
  "cmd_ls args w =
     (let path = (if args \<noteq> [] then hd args else ''.'') in
      case list_dir w path of
        Inl e \<Rightarrow> ''ls: cannot access '' @ [squote] @ path @ [squote] @ '': '' @ exc_str e
      | Inr items \<Rightarrow> join [CHR 0x0A] items)"

text \<open>One round of the loop of \<open>cmd_rm\<close>: the state after it and the lines added to
  \<open>outputs\<close>.\<close>

definition rm_target :: "string \<Rightarrow> world \<Rightarrow> world \<times> string list" where
  "rm_target target w =
     (let path = Path (expanduser w target) in
      if is_dir w path \<and> \<not> is_symlink w path then
        (case os_rmdir w path of
           Inr w' \<Rightarrow> (w', [])
         | Inl e \<Rightarrow> (w, [''rm: cannot remove '' @ [squote] @ target @ [squote] @ '': Directory not empty'']))
      else
        (case os_unlink w path of
           Inr w' \<Rightarrow> (w', [])
         | Inl e \<Rightarrow>
             if is_FileNotFoundError e
             then (w, [''rm: cannot remove '' @ [squote] @ target @ [squote] @ '': No such file or directory''])
             else (w, [''rm: '' @ target @ '': '' @ exc_str e])))"

fun rm_targets :: "string list \<Rightarrow> world \<Rightarrow> world \<times> string list" where
  "rm_targets [] w = (w, [])"
| "rm_targets (target # rest) w =
     (case rm_target target w of
        (w1, out1) \<Rightarrow> (case rm_targets rest w1 of (w2, out2) \<Rightarrow> (w2, out1 @ out2)))"

definition cmd_rm :: "string list \<Rightarrow> world \<Rightarrow> world \<times> string" where
  "cmd_rm args w =
     (if args = [] then (w, ''rm: missing operand'')
      else case rm_targets args w of (w', outputs) \<Rightarrow> (w', join [CHR 0x0A] outputs))"

text \<open>A name that stands for an entry of a directory, and a file system in which every
  entry has such names and lies in a directory that is there.\<close>

definition proper_name :: "string \<Rightarrow> bool" where
  "proper_name n = (n \<noteq> [] \<and> n \<noteq> ''.'' \<and> n \<noteq> ''..'' \<and> CHR ''/'' \<notin> set n)"

definition tree_ok :: "fs \<Rightarrow> bool" where
  "tree_ok fs =
     list_all (\<lambda>e. fst e \<noteq> [] \<and> list_all proper_name (fst e)
                 \<and> fs_lookup fs (butlast (fst e)) = Some Dir) fs"

section \<open>Creating directories and copying files\<close>

text \<open>\<open>os.mkdir\<close>: the name must be free.\<close>

definition os_mkdir :: "world \<Rightarrow> string \<Rightarrow> py_exc + world" where
  "os_mkdir w p =
     (case namei w p (path_names p) No_follow of
        Inl en \<Rightarrow> Inl (OSError en p)
      | Inr k \<Rightarrow>
          (case fs_lookup (w_fs w) k of
             Some n \<Rightarrow> Inl (OSError EEXIST p)
           | None \<Rightarrow> Inr (w\<lparr>w_fs := fs_put k Dir (w_fs w)\<rparr>)))"

text \<open>
  \<open>Path.mkdir(parents=True, exist_ok=...)\<close>, on the root and the names of the path:
  \<open>os.mkdir\<close> is tried; on \<open>FileNotFoundError\<close> the parent is made first (unless the
  path is its own parent) and \<open>os.mkdir\<close> is tried again without \<open>parents\<close>; any other
  \<open>OSError\<close> is passed over when \<open>exist_ok\<close> holds and the path is a directory. The
  result of an operation made of several steps is the exception it raised, if any, and
  the state it left: the steps done before an exception stay done.
\<close>

definition path_of :: "string \<Rightarrow> string list \<Rightarrow> string" where
  "path_of root names = (if names = [] \<and> root = [] then ''.'' else root @ join ''/'' names)"

definition mkdir_plain :: "world \<Rightarrow> string \<Rightarrow> bool \<Rightarrow> py_exc + world" where
  "mkdir_plain w p exist_ok =
     (case os_mkdir w p of
        Inr w' \<Rightarrow> Inr w'
      | Inl e \<Rightarrow>
          if is_FileNotFoundError e then Inl e
          else if \<not> exist_ok \<or> \<not> is_dir w p then Inl e
          else Inr w)"

function mkdir_parents :: "world \<Rightarrow> string \<Rightarrow> string list \<Rightarrow> bool \<Rightarrow> py_exc option \<times> world" where
  "mkdir_parents w root names exist_ok =
     (case os_mkdir w (path_of root names) of
        Inr w' \<Rightarrow> (None, w')
      | Inl e \<Rightarrow>
          if is_FileNotFoundError e then
            (if names = [] then (Some e, w)
             else case mkdir_parents w root (butlast names) True of
                    (Some e', w1) \<Rightarrow> (Some e', w1)
                  | (None, w1) \<Rightarrow>
                      (case mkdir_plain w1 (path_of root names) exist_ok of
                         Inl e2 \<Rightarrow> (Some e2, w1)
                       | Inr w2 \<Rightarrow> (None, w2)))
          else if \<not> exist_ok \<or> \<not> is_dir w (path_of root names) then (Some e, w)
          else (None, w))"
  by pat_completeness auto
termination
  by (relation "measure (\<lambda>(w, root, names, exist_ok). length names)") auto

definition Path_mkdir :: "world \<Rightarrow> string \<Rightarrow> bool \<Rightarrow> py_exc option \<times> world" where
  "Path_mkdir w p exist_ok = mkdir_parents w (path_root p) (components p) exist_ok"

text \<open>Opening a file to read it (\<open>open(p, 'rb')\<close>) follows a link at the end of the
  path. Opening a file to write it (\<open>open(p, 'wb')\<close>) follows it too, to the place it
  leads to: the file there is emptied, or made when the name is free.\<close>

definition read_file :: "world \<Rightarrow> string \<Rightarrow> py_exc + string" where
  "read_file w p =
     (case os_stat w p of
        Inl en \<Rightarrow> Inl (OSError en p)
      | Inr (k, File c) \<Rightarrow> Inr c
      | Inr (k, Dir) \<Rightarrow> Inl (OSError EISDIR p)
      | Inr (k, Symlink t) \<Rightarrow> Inl (OSError ELOOP p))"

definition write_file :: "world \<Rightarrow> string \<Rightarrow> string \<Rightarrow> py_exc + world" where
  "write_file w p c =
     (case namei w p (names_of p) Create of
        Inl en \<Rightarrow> Inl (OSError en p)
      | Inr k \<Rightarrow>
          (case fs_lookup (w_fs w) k of
             Some Dir \<Rightarrow> Inl (OSError EISDIR p)
           | Some (Symlink t) \<Rightarrow> Inl (OSError ELOOP p)
           | _ \<Rightarrow> Inr (w\<lparr>w_fs := fs_put k (File c) (w_fs w)\<rparr>)))"

text \<open>\<open>shutil._samefile\<close>: both paths lead to the same place; false when one of them
  cannot be looked up.\<close>

definition samefile :: "world \<Rightarrow> string \<Rightarrow> string \<Rightarrow> bool" where
  "samefile w a b =
     (case os_stat w a of
        Inl en \<Rightarrow> False
      | Inr (ka, na) \<Rightarrow> (case os_stat w b of Inl en \<Rightarrow> False | Inr (kb, nb) \<Rightarrow> ka = kb))"

text \<open>\<open>shutil.copyfile\<close>: the source is opened, then the destination. An
  \<open>IsADirectoryError\<close> for a destination that is not there is raised as a
  \<open>FileNotFoundError\<close>.\<close>

definition copyfile :: "world \<Rightarrow> string \<Rightarrow> string \<Rightarrow> py_exc + world" where
  "copyfile w src dst =
     (if samefile w src dst
      then Inl (ShutilError (py_repr src @ '' and '' @ py_repr dst @ '' are the same file''))
      else case read_file w src of
             Inl e \<Rightarrow> Inl e
           | Inr c \<Rightarrow>
              (case write_file w dst c of
                 Inr w' \<Rightarrow> Inr w'
               | Inl e \<Rightarrow>
                   if e = OSError EISDIR dst \<and> \<not> path_exists w dst
                   then Inl (FileNotFoundError (''Directory does not exist: '' @ dst))
                   else Inl e))"

text \<open>\<open>shutil.copy2\<close>; the times and modes that \<open>copystat\<close> copies are not part of the
  state.\<close>

definition copy2 :: "world \<Rightarrow> string \<Rightarrow> string \<Rightarrow> py_exc + world" where
  "copy2 w src dst =
     (let dst' = (if is_dir w dst then os_path_join dst (os_path_basename src) else dst)
      in copyfile w src dst')"

text \<open>
  \<open>shutil.copytree\<close> and \<open>shutil.rmtree\<close> walk a directory tree. They are taken from
  the library as they are: \<open>sl_copytree w src dst symlinks\<close> and \<open>sl_rmtree w p\<close> give
  the exception they raise, if any, and the state they leave.
\<close>

record shutil_lib =
  sl_copytree :: "world \<Rightarrow> string \<Rightarrow> string \<Rightarrow> bool \<Rightarrow> py_exc option \<times> world"
  sl_rmtree :: "world \<Rightarrow> string \<Rightarrow> py_exc option \<times> world"

text \<open>The result of one step, which either fails and leaves the state as it was or
  succeeds.\<close>

definition one_step :: "world \<Rightarrow> py_exc + world \<Rightarrow> py_exc option \<times> world" where
  "one_step w r = (case r of Inl e \<Rightarrow> (Some e, w) | Inr w' \<Rightarrow> (None, w'))"

section \<open>The builtin \<open>cp\<close>\<close>

text \<open>One round of \<open>for s in sources\<close> in \<open>cmd_cp\<close>.\<close>

definition cp_source :: "string \<Rightarrow> string \<Rightarrow> world \<Rightarrow> world \<times> string list" where
  "cp_source dest s w =
     (let s_path = Path (expanduser w s) in
      case copy2 w s_path (path_div dest (path_name s_path)) of
        Inr w' \<Rightarrow> (w', [])
      | Inl e \<Rightarrow> (w, [''cp: '' @ s @ '': '' @ exc_str e]))"

fun cp_sources :: "string \<Rightarrow> string list \<Rightarrow> world \<Rightarrow> world \<times> string list" where
  "cp_sources dest [] w = (w, [])"
| "cp_sources dest (s # rest) w =
     (case cp_source dest s w of
        (w1, out1) \<Rightarrow> (case cp_sources dest rest w1 of (w2, out2) \<Rightarrow> (w2, out1 @ out2)))"

definition cmd_cp :: "shutil_lib \<Rightarrow> string list \<Rightarrow> world \<Rightarrow> world \<times> string" where
  "cmd_cp lib args w =
     (if length args < 2 then (w, ''cp: missing operand'')
      else
        (let sources = butlast args;
             dest = Path (expanduser w (last args))
         in if length sources > 1 then
              (case Path_mkdir w dest True of
                 (Some e, w1) \<Rightarrow> (w1, join [CHR 0x0A] [exc_str e])
               | (None, w1) \<Rightarrow>
                  (case cp_sources dest sources w1 of
                     (w2, outs) \<Rightarrow> (w2, join [CHR 0x0A] outs)))
            else
              (let s_path = Path (expanduser w (hd sources));
                   target = (if is_dir w dest then path_div dest (path_name s_path) else dest)
               in case (if is_dir w s_path then sl_copytree lib w s_path target False
                        else one_step w (copy2 w s_path target)) of
                    (None, w') \<Rightarrow> (w', join [CHR 0x0A] [])
                  | (Some e, w') \<Rightarrow> (w', join [CHR 0x0A] [''cp: '' @ s_path @ '': '' @ exc_str e]))))"

section \<open>The builtin \<open>mv\<close>\<close>

text \<open>
  \<open>os.rename\<close>. The kernel first walks to the directories of both paths, then refuses
  a last name that is \<open>.\<close> or \<open>..\<close> (or the root), then looks up both last names, without
  following a link. A file or a link takes the place of a file or a link; a directory
  moves with everything below it, to a free name or in the place of an empty directory,
  and not into itself. The working directory moves with the directory it lies in.
\<close>

definition parent_dir :: "world \<Rightarrow> string \<Rightarrow> errno + string list" where
  "parent_dir w p =
     (case namei w p (butlast (path_names p)) Follow of
        Inl en \<Rightarrow> Inl en
      | Inr k \<Rightarrow>
          (case fs_lookup (w_fs w) k of
             None \<Rightarrow> Inl ENOENT
           | Some Dir \<Rightarrow> Inr k
           | Some n \<Rightarrow> Inl ENOTDIR))"

definition special_last :: "string \<Rightarrow> bool" where
  "special_last p = (path_names p = [] \<or> last (path_names p) = ''.'' \<or> last (path_names p) = ''..'')"

definition is_prefix :: "string list \<Rightarrow> string list \<Rightarrow> bool" where
  "is_prefix a b = (take (length a) b = a)"

definition move_entries :: "string list \<Rightarrow> string list \<Rightarrow> fs \<Rightarrow> fs" where
  "move_entries sk dk fs =
     map (\<lambda>e. if is_prefix sk (fst e) then (dk @ drop (length sk) (fst e), snd e) else e)
       (filter (\<lambda>e. is_prefix sk (fst e) \<or> \<not> is_prefix dk (fst e)) fs)"

definition os_rename :: "world \<Rightarrow> string \<Rightarrow> string \<Rightarrow> py_exc + world" where
  "os_rename w src dst =
     (case parent_dir w src of
        Inl en \<Rightarrow> Inl (OSError2 en src dst)
      | Inr sp \<Rightarrow>
     (case parent_dir w dst of
        Inl en \<Rightarrow> Inl (OSError2 en src dst)
      | Inr dp \<Rightarrow>
          if special_last src \<or> special_last dst then Inl (OSError2 EBUSY src dst)
          else
            (let sk = sp @ [last (path_names src)];
                 dk = dp @ [last (path_names dst)]
             in case fs_lookup (w_fs w) sk of
                  None \<Rightarrow> Inl (OSError2 ENOENT src dst)
                | Some sn \<Rightarrow>
                    if sn \<noteq> Dir \<and> (trailing_slash src \<or> trailing_slash dst)
                      then Inl (OSError2 ENOTDIR src dst)
                    else if sk = dk then Inr w
                    else if is_prefix sk dk then Inl (OSError2 EINVAL src dst)
                    else if is_prefix dk sk then Inl (OSError2 ENOTEMPTY src dst)
                    else
                      (case (sn, fs_lookup (w_fs w) dk) of
                         (Dir, Some Dir) \<Rightarrow>
                           if children (w_fs w) dk \<noteq> [] then Inl (OSError2 ENOTEMPTY src dst)
                           else Inr (w\<lparr>w_fs := move_entries sk dk (w_fs w),
                                       w_cwd := (if is_prefix sk (w_cwd w)
                                                 then dk @ drop (length sk) (w_cwd w) else w_cwd w)\<rparr>)
                       | (Dir, Some dn) \<Rightarrow> Inl (OSError2 ENOTDIR src dst)
                       | (Dir, None) \<Rightarrow>
                           Inr (w\<lparr>w_fs := move_entries sk dk (w_fs w),
                                  w_cwd := (if is_prefix sk (w_cwd w)
                                            then dk @ drop (length sk) (w_cwd w) else w_cwd w)\<rparr>)
                       | (sn', Some Dir) \<Rightarrow> Inl (OSError2 EISDIR src dst)
                       | (sn', dn) \<Rightarrow> Inr (w\<lparr>w_fs := move_entries sk dk (w_fs w)\<rparr>)))))"

definition os_readlink :: "world \<Rightarrow> string \<Rightarrow> py_exc + string" where
  "os_readlink w p =
     (case os_lstat w p of
        Inl en \<Rightarrow> Inl (OSError en p)
      | Inr (k, Symlink t) \<Rightarrow> Inr t
      | Inr (k, n) \<Rightarrow> Inl (OSError EINVAL p))"

text \<open>\<open>os.symlink(target, p)\<close>: the name must be free, and no slash may follow it.\<close>

definition os_symlink :: "world \<Rightarrow> string \<Rightarrow> string \<Rightarrow> py_exc + world" where
  "os_symlink w target p =
     (if target = [] then Inl (OSError2 ENOENT target p)
      else case namei w p (path_names p) No_follow of
             Inl en \<Rightarrow> Inl (OSError2 en target p)
           | Inr k \<Rightarrow>
               (case fs_lookup (w_fs w) k of
                  Some n \<Rightarrow> Inl (OSError2 EEXIST target p)
                | None \<Rightarrow>
                    if trailing_slash p then Inl (OSError2 ENOENT target p)
                    else Inr (w\<lparr>w_fs := fs_put k (Symlink target) (w_fs w)\<rparr>)))"

text \<open>\<open>shutil._basename\<close>; \<open>os.getcwd\<close>, \<open>os.path.normpath\<close> and \<open>os.path.abspath\<close>, which
  cancels \<open>..\<close> against the name before it without looking at the file system; and
  \<open>shutil._destinsrc\<close>.\<close>

definition shutil_basename :: "string \<Rightarrow> string" where
  "shutil_basename p = os_path_basename (rstrip_char (CHR ''/'') p)"

definition os_getcwd :: "world \<Rightarrow> py_exc + string" where
  "os_getcwd w =
     (case fs_lookup (w_fs w) (w_cwd w) of
        Some Dir \<Rightarrow> Inr (''/'' @ join ''/'' (w_cwd w))
      | _ \<Rightarrow> Inl (OSError0 ENOENT))"

fun normpath_names :: "bool \<Rightarrow> string list \<Rightarrow> string list \<Rightarrow> string list" where
  "normpath_names rooted new [] = new"
| "normpath_names rooted new (c # cs) =
     (if c = [] \<or> c = ''.'' then normpath_names rooted new cs
      else if c \<noteq> ''..'' \<or> (\<not> rooted \<and> new = []) \<or> (new \<noteq> [] \<and> last new = ''..'')
        then normpath_names rooted (new @ [c]) cs
      else normpath_names rooted (butlast new) cs)"

definition normpath :: "string \<Rightarrow> string" where
  "normpath p =
     (let r = path_root p @ join ''/'' (normpath_names (path_root p \<noteq> []) [] (str_split (CHR ''/'') p))
      in if r = [] then ''.'' else r)"

definition abspath :: "world \<Rightarrow> string \<Rightarrow> py_exc + string" where
  "abspath w p =
     (if startswith p ''/'' then Inr (normpath p)
      else case os_getcwd w of
             Inl e \<Rightarrow> Inl e
           | Inr cwd \<Rightarrow> Inr (normpath (os_path_join cwd p)))"

definition with_sep :: "string \<Rightarrow> string" where
  "with_sep p = (if p \<noteq> [] \<and> last p = CHR ''/'' then p else p @ ''/'')"

definition destinsrc :: "world \<Rightarrow> string \<Rightarrow> string \<Rightarrow> py_exc + bool" where
  "destinsrc w src dst =
     (case abspath w src of
        Inl e \<Rightarrow> Inl e
      | Inr s \<Rightarrow>
          (case abspath w dst of
             Inl e \<Rightarrow> Inl e
           | Inr d \<Rightarrow> Inr (startswith (with_sep d) (with_sep s))))"

text \<open>Two steps one after the other: the second runs in the state the first left, when
  the first raised nothing.\<close>

definition and_then ::
  "py_exc option \<times> world \<Rightarrow> (world \<Rightarrow> py_exc option \<times> world) \<Rightarrow> py_exc option \<times> world" where
  "and_then r f = (case r of (Some e, w) \<Rightarrow> (Some e, w) | (None, w) \<Rightarrow> f w)"

text \<open>
  \<open>shutil.move(src, dst)\<close>. The part after \<open>os.rename\<close> has raised an \<open>OSError\<close>:
  a link is made again at the destination, a directory is copied and removed by the
  library, a file is copied and unlinked. No file is immutable.
\<close>

definition move_to :: "shutil_lib \<Rightarrow> world \<Rightarrow> string \<Rightarrow> string \<Rightarrow> string \<Rightarrow> py_exc option \<times> world" where
  "move_to lib w src dst real_dst =
     (case os_rename w src real_dst of
        Inr w' \<Rightarrow> (None, w')
      | Inl e \<Rightarrow>
          if is_symlink w src then
            (case os_readlink w src of
               Inl e1 \<Rightarrow> (Some e1, w)
             | Inr linkto \<Rightarrow>
                 and_then (one_step w (os_symlink w linkto real_dst))
                   (\<lambda>w1. one_step w1 (os_unlink w1 src)))
          else if is_dir w src then
            (case destinsrc w src dst of
               Inl e1 \<Rightarrow> (Some e1, w)
             | Inr True \<Rightarrow>
                 (Some (ShutilError (''Cannot move a directory '' @ [squote] @ src @ [squote]
                    @ '' into itself '' @ [squote] @ dst @ [squote] @ ''.'')), w)
             | Inr False \<Rightarrow>
                 and_then (sl_copytree lib w src real_dst True) (\<lambda>w1. sl_rmtree lib w1 src))
          else
            and_then (one_step w (copy2 w src real_dst)) (\<lambda>w1. one_step w1 (os_unlink w1 src)))"

definition shutil_move :: "shutil_lib \<Rightarrow> world \<Rightarrow> string \<Rightarrow> string \<Rightarrow> py_exc option \<times> world" where
  "shutil_move lib w src dst =
     (if is_dir w dst then
        (if samefile w src dst \<and> \<not> is_symlink w src then one_step w (os_rename w src dst)
         else
           (let real_dst = os_path_join dst (shutil_basename src) in
            if path_exists w real_dst
            then (Some (ShutilError (''Destination path '' @ [squote] @ real_dst @ [squote]
                    @ '' already exists'')), w)
            else move_to lib w src dst real_dst))
      else move_to lib w src dst dst)"

text \<open>One round of \<open>for s in sources\<close> in \<open>cmd_mv\<close>: the source string goes to
  \<open>shutil.move\<close> as it was typed.\<close>

definition mv_source :: "shutil_lib \<Rightarrow> string \<Rightarrow> string \<Rightarrow> world \<Rightarrow> world \<times> string list" where
  "mv_source lib dest s w =
     (case shutil_move lib w s dest of
        (None, w') \<Rightarrow> (w', [])
      | (Some e, w') \<Rightarrow> (w', [''mv: '' @ s @ '': '' @ exc_str e]))"

fun mv_sources :: "shutil_lib \<Rightarrow> string \<Rightarrow> string list \<Rightarrow> world \<Rightarrow> world \<times> string list" where
  "mv_sources lib dest [] w = (w, [])"
| "mv_sources lib dest (s # rest) w =
     (case mv_source lib dest s w of
        (w1, out1) \<Rightarrow> (case mv_sources lib dest rest w1 of (w2, out2) \<Rightarrow> (w2, out1 @ out2)))"

definition cmd_mv :: "shutil_lib \<Rightarrow> string list \<Rightarrow> world \<Rightarrow> world \<times> string" where
  "cmd_mv lib args w =
     (if length args < 2 then (w, ''mv: missing operand'')
      else
        (let sources = butlast args;
             dest = Path (expanduser w (last args))
         in if length sources > 1 then
              (case Path_mkdir w dest True of
                 (Some e, w1) \<Rightarrow> (w1, join [CHR 0x0A] [exc_str e])
               | (None, w1) \<Rightarrow>
                  (case mv_sources lib dest sources w1 of
                     (w2, outs) \<Rightarrow> (w2, join [CHR 0x0A] outs)))
            else
              (case mv_source lib dest (hd sources) w of
                 (w', outs) \<Rightarrow> (w', join [CHR 0x0A] outs))))"

section \<open>The history file\<close>

text \<open>
  \<open>HISTORY_FILE\<close> is \<open>Path.home() / ".py_terminal_history"\<close>. It is opened in text
  mode: on POSIX a write leaves the text as it is, and a read turns every \<open>\r\n\<close> and
  every \<open>\r\<close> into \<open>\n\<close> (universal newlines). \<open>readlines\<close> cuts the text after every
  \<open>\n\<close>.
\<close>

definition LF :: char where "LF = CHR 0x0A"
definition CR :: char where "CR = CHR 0x0D"

definition HISTORY_FILE :: "world \<Rightarrow> string" where
  "HISTORY_FILE w = path_div (Path (expanduser w ''~'')) ''.py_terminal_history''"

text \<open>\<open>open(p, 'a')\<close> and a write: the text is put after the text of the file, which
  is made when its name is free.\<close>

definition append_file :: "world \<Rightarrow> string \<Rightarrow> string \<Rightarrow> py_exc + world" where
  "append_file w p c =
     (case namei w p (names_of p) Create of
        Inl en \<Rightarrow> Inl (OSError en p)
      | Inr k \<Rightarrow>
          (case fs_lookup (w_fs w) k of
             Some Dir \<Rightarrow> Inl (OSError EISDIR p)
           | Some (Symlink t) \<Rightarrow> Inl (OSError ELOOP p)
           | Some (File old) \<Rightarrow> Inr (w\<lparr>w_fs := fs_put k (File (old @ c)) (w_fs w)\<rparr>)
           | None \<Rightarrow> Inr (w\<lparr>w_fs := fs_put k (File c) (w_fs w)\<rparr>)))"

definition append_history_line :: "string \<Rightarrow> world \<Rightarrow> world" where
  "append_history_line line w =
     (case append_file w (HISTORY_FILE w) (line @ [LF]) of
        Inl e \<Rightarrow> w
      | Inr w' \<Rightarrow> w')"

fun universal_newlines :: "string \<Rightarrow> string" where
  "universal_newlines [] = []"
| "universal_newlines [c] = (if c = CR then [LF] else [c])"
| "universal_newlines (c # d # cs) =
     (if c = CR then
        (if d = LF then LF # universal_newlines cs else LF # universal_newlines (d # cs))
      else c # universal_newlines (d # cs))"

fun readlines_acc :: "string \<Rightarrow> string \<Rightarrow> string list" where
  "readlines_acc cur [] = (if cur = [] then [] else [cur])"
| "readlines_acc cur (c # cs) =
     (if c = LF then (cur @ [c]) # readlines_acc [] cs else readlines_acc (cur @ [c]) cs)"

definition readlines :: "string \<Rightarrow> string list" where
  "readlines s = readlines_acc [] s"

text \<open>\<open>str(n)\<close> for a number that is not negative.\<close>

definition digit_char :: "nat \<Rightarrow> char" where
  "digit_char d = char_of (48 + d)"

function str_of_nat :: "nat \<Rightarrow> string" where
  "str_of_nat n = (if n < 10 then [digit_char n] else str_of_nat (n div 10) @ [digit_char (n mod 10)])"
  by pat_completeness auto
termination
  by (relation "measure (\<lambda>n. n)") auto

text \<open>\<open>[f"{i+1}: {l}" for i, l in enumerate(lines)]\<close>\<close>

definition numbered :: "string list \<Rightarrow> string list" where
  "numbered lines = map (\<lambda>(i, l). str_of_nat (i + 1) @ '': '' @ l) (enumerate 0 lines)"

text \<open>The lines of a text as \<open>cmd_history\<close> reads them.\<close>

definition history_lines :: "string \<Rightarrow> string list" where
  "history_lines c = map (rstrip_char LF) (readlines (universal_newlines c))"

definition cmd_history :: "string list \<Rightarrow> world \<Rightarrow> string" where
  "cmd_history args w =
     (case read_file w (HISTORY_FILE w) of
        Inr c \<Rightarrow> join [LF] (numbered (history_lines c))
      | Inl e \<Rightarrow>
          if is_FileNotFoundError e then ''(no history)''
          else ''history: '' @ exc_str e)"

text \<open>
  The history file can be opened for appending and holds the text \<open>old\<close>: it is a
  regular file with this text, or its name is free in a directory that is there and
  \<open>old\<close> is empty. A text of complete lines. A line without line feed and carriage
  return.
\<close>

definition history_store :: "world \<Rightarrow> string \<Rightarrow> bool" where
  "history_store w old =
     (case namei w (HISTORY_FILE w) (names_of (HISTORY_FILE w)) Create of
        Inl en \<Rightarrow> False
      | Inr k \<Rightarrow>
         (case fs_lookup (w_fs w) k of
            Some (File c) \<Rightarrow> c = old
          | None \<Rightarrow> old = []
          | Some n \<Rightarrow> False))"

definition complete_text :: "string \<Rightarrow> bool" where
  "complete_text c = (c = [] \<or> last c = LF)"

definition clean_line :: "string \<Rightarrow> bool" where
  "clean_line l = (LF \<notin> set l \<and> CR \<notin> set l)"


section \<open>The session\<close>

text \<open>
  The state of a session: the state of the process and the history list of the line
  editor, \<open>None\<close> when no line editor could be imported (\<open>READLINE_AVAILABLE\<close> is
  false). When the input is a terminal, \<open>input\<close> reads the line with the line editor,
  which puts a line that is not empty at the end of its list, unless it is the last line
  of the list already.
\<close>

record session =
  s_world :: world
  s_editor :: "string list option"
  s_terminal :: bool

definition input_recorded :: "string \<Rightarrow> session \<Rightarrow> session" where
  "input_recorded line s =
     (case s_editor s of
        None \<Rightarrow> s
      | Some h \<Rightarrow>
          if s_terminal s \<and> line \<noteq> [] \<and> (h = [] \<or> last h \<noteq> line)
          then s\<lparr>s_editor := Some (h @ [line])\<rparr>
          else s)"

text \<open>
  The line editor reads and writes its history file in its own format. Both calls are
  taken from the library as they are: \<open>rl_read_history_file w p\<close> gives the lines read, or
  the exception raised; \<open>rl_write_history_file w h p\<close> gives the exception raised, if any,
  and the state left.
\<close>

record readline_lib =
  rl_read_history_file :: "world \<Rightarrow> string \<Rightarrow> py_exc + string list"
  rl_write_history_file :: "world \<Rightarrow> string list \<Rightarrow> string \<Rightarrow> py_exc option \<times> world"

text \<open>\<open>load_history\<close> and \<open>save_history_on_exit\<close>: every exception is passed over.\<close>

definition load_history :: "readline_lib \<Rightarrow> session \<Rightarrow> session" where
  "load_history rl s =
     (case s_editor s of
        None \<Rightarrow> s
      | Some h \<Rightarrow>
          if path_exists (s_world s) (HISTORY_FILE (s_world s)) then
            (case rl_read_history_file rl (s_world s) (HISTORY_FILE (s_world s)) of
               Inl e \<Rightarrow> s
             | Inr ls \<Rightarrow> s\<lparr>s_editor := Some (h @ ls)\<rparr>)
          else s)"

definition save_history_on_exit :: "readline_lib \<Rightarrow> session \<Rightarrow> session" where
  "save_history_on_exit rl s =
     (case s_editor s of
        None \<Rightarrow> s
      | Some h \<Rightarrow>
          s\<lparr>s_world := snd (rl_write_history_file rl (s_world s) h (HISTORY_FILE (s_world s)))\<rparr>)"

text \<open>The operations of the loop on a session: the history as the program keeps it. The
  handlers, the working directory and the commands of the system come from \<open>base\<close>.\<close>

definition session_ops :: "readline_lib \<Rightarrow> session shell_ops \<Rightarrow> session shell_ops" where
  "session_ops rl base =
     base\<lparr> op_input := input_recorded,
           op_load_history := load_history rl,
           op_save_history_on_exit := save_history_on_exit rl,
           op_append_history_line :=
             (\<lambda>line s. s\<lparr>s_world := append_history_line line (s_world s)\<rparr>) \<rparr>"

section \<open>Example environments\<close>

text \<open>A shell over a state that counts the history lines appended, with a \<open>pwd\<close>
  handler that raises and every other handler printing nothing.\<close>

definition example_ops :: "nat shell_ops" where
  "example_ops =
     \<lparr> op_getcwd = (\<lambda>w. Inr ''/home/u''),
       op_input = (\<lambda>line w. w),
       op_load_history = (\<lambda>w. w),
       op_save_history_on_exit = (\<lambda>w. w),
       op_append_history_line = (\<lambda>line w. Suc w),
       op_dispatch = (\<lambda>cmd args w.
          if cmd = ''pwd'' then (Inl (OSError ENOENT ''.''), w) else (Inr [], w)),
       op_cmd_help = (\<lambda>args. ''Built-in commands:''),
       op_run_external_command = (\<lambda>parts w. (hd parts @ '': command not found'', w)) \<rparr>"

text \<open>An example environment: one listable directory on the search path, holding an
  executable named like a builtin and a repeated name.\<close>

definition example_comp_env :: comp_env where
  "example_comp_env =
     \<lparr> ce_readline_available = True, ce_begidx = 0, ce_PATH = Some ''/bin::/none'',
       ce_listdir = (\<lambda>d. if d = ''/bin'' then Some [''ls'', ''lsblk'', ''cat'', ''lsblk''] else None),
       ce_path_complete = (\<lambda>t. []) \<rparr>"

text \<open>A home directory with a file, a directory that holds a file, a directory with a
  file of the same name and a link to the file, an empty directory, a link to the first
  directory and a link to the file.\<close>

definition example_world :: world where
  "example_world =
     \<lparr> w_fs = [([''home''], Dir), ([''home'', ''u''], Dir),
               ([''home'', ''u'', ''existing.txt''], File ''hello''),
               ([''home'', ''u'', ''docs''], Dir),
               ([''home'', ''u'', ''docs'', ''a.txt''], File ''A''),
               ([''home'', ''u'', ''docs'', ''sub''], Dir),
               ([''home'', ''u'', ''docs'', ''sub'', ''a.txt''], File ''B''),
               ([''home'', ''u'', ''docs'', ''l2''], Symlink ''a.txt''),
               ([''home'', ''u'', ''empty''], Dir),
               ([''home'', ''u'', ''lnk''], Symlink ''docs''),
               ([''home'', ''u'', ''flnk''], Symlink ''existing.txt'')],
       w_cwd = [''home'', ''u''], w_home = ''/home/u'', w_user_home = (\<lambda>u. None) \<rparr>"

text \<open>A library whose tree operations fail; the examples do not reach them.\<close>

definition example_lib :: shutil_lib where
  "example_lib =
     \<lparr> sl_copytree = (\<lambda>w src dst symlinks. (Some (OtherException ''copytree''), w)),
       sl_rmtree = (\<lambda>w p. (Some (OtherException ''rmtree''), w)) \<rparr>"

text \<open>A line editor library that keeps its history file as one line for each entry, and
  a session at a terminal with a line editor, in the example state, whose handlers print
  nothing.\<close>

definition example_readline :: readline_lib where
  "example_readline =
     \<lparr> rl_read_history_file = (\<lambda>w p. case read_file w p of Inl e \<Rightarrow> Inl e | Inr c \<Rightarrow> Inr (history_lines c)),
       rl_write_history_file = (\<lambda>w h p. one_step w (write_file w p (concat (map (\<lambda>l. l @ [LF]) h)))) \<rparr>"

definition example_base :: "session shell_ops" where
  "example_base =
     \<lparr> op_getcwd = (\<lambda>s. os_getcwd (s_world s)),
       op_input = (\<lambda>line s. s),
       op_load_history = (\<lambda>s. s),
       op_save_history_on_exit = (\<lambda>s. s),
       op_append_history_line = (\<lambda>line s. s),
       op_dispatch = (\<lambda>cmd args s.
          if cmd = ''history'' then (Inr (cmd_history args (s_world s)), s) else (Inr [], s)),
       op_cmd_help = (\<lambda>args. ''Built-in commands:''),
       op_run_external_command = (\<lambda>parts s. (hd parts @ '': command not found'', s)) \<rparr>"

definition example_session :: session where
  "example_session = \<lparr> s_world = example_world, s_editor = Some [], s_terminal = True \<rparr>"

chapter \<open>Properties\<close>

section \<open>Properties of completion\<close>

lemma scan_entries_prefix:
  "\<exists>ext. fst (scan_entries text fs (cands, seen)) = cands @ ext
       \<and> snd (scan_entries text fs (cands, seen)) = seen \<union> set ext
       \<and> set ext \<inter> seen = {} \<and> distinct ext
       \<and> set ext \<subseteq> {f \<in> set fs. startswith f text}"
proof (induction fs arbitrary: cands seen)
  case Nil
  show ?case by simp
next
  case (Cons f fs)
  show ?case
  proof (cases "startswith f text \<and> f \<notin> seen")
    case True
    from Cons.IH [of "cands @ [f]" "insert f seen"]
    obtain ext where e: "fst (scan_entries text fs (cands @ [f], insert f seen)) = (cands @ [f]) @ ext"
      "snd (scan_entries text fs (cands @ [f], insert f seen)) = insert f seen \<union> set ext"
      "set ext \<inter> insert f seen = {}" "distinct ext"
      "set ext \<subseteq> {g \<in> set fs. startswith g text}"
      by blast
    have "fst (scan_entries text (f # fs) (cands, seen)) = cands @ (f # ext)"
      using True e(1) by simp
    moreover have "snd (scan_entries text (f # fs) (cands, seen)) = seen \<union> set (f # ext)"
      using True e(2) by simp
    moreover have "set (f # ext) \<inter> seen = {}"
      using True e(3) by auto
    moreover have "distinct (f # ext)"
      using e(3,4) by auto
    moreover have "set (f # ext) \<subseteq> {g \<in> set (f # fs). startswith g text}"
      using True e(5) by auto
    ultimately show ?thesis by blast
  next
    case False
    from Cons.IH [of cands seen]
    obtain ext where e: "fst (scan_entries text fs (cands, seen)) = cands @ ext"
      "snd (scan_entries text fs (cands, seen)) = seen \<union> set ext"
      "set ext \<inter> seen = {}" "distinct ext"
      "set ext \<subseteq> {g \<in> set fs. startswith g text}"
      by blast
    have "scan_entries text (f # fs) (cands, seen) = scan_entries text fs (cands, seen)"
      using False by auto
    with e show ?thesis by auto
  qed
qed

lemma scan_path_dirs_prefix:
  "\<exists>ext. fst (scan_path_dirs listdir text ds (cands, seen)) = cands @ ext
       \<and> snd (scan_path_dirs listdir text ds (cands, seen)) = seen \<union> set ext
       \<and> set ext \<inter> seen = {} \<and> distinct ext
       \<and> (\<forall>f \<in> set ext. startswith f text)"
proof (induction ds arbitrary: cands seen)
  case Nil
  show ?case by simp
next
  case (Cons d ds)
  show ?case
  proof (cases "d = [] \<or> listdir d = None")
    case True
    then have "scan_path_dirs listdir text (d # ds) (cands, seen)
                = scan_path_dirs listdir text ds (cands, seen)"
      by auto
    with Cons.IH [of cands seen] show ?thesis by simp
  next
    case False
    then obtain entries where l: "d \<noteq> []" "listdir d = Some entries" by auto
    obtain e1 where e1: "fst (scan_entries text entries (cands, seen)) = cands @ e1"
      "snd (scan_entries text entries (cands, seen)) = seen \<union> set e1"
      "set e1 \<inter> seen = {}" "distinct e1" "set e1 \<subseteq> {f \<in> set entries. startswith f text}"
      using scan_entries_prefix [of "text" entries cands seen] by blast
    obtain e2 where e2:
      "fst (scan_path_dirs listdir text ds (cands @ e1, seen \<union> set e1)) = (cands @ e1) @ e2"
      "snd (scan_path_dirs listdir text ds (cands @ e1, seen \<union> set e1)) = (seen \<union> set e1) \<union> set e2"
      "set e2 \<inter> (seen \<union> set e1) = {}" "distinct e2" "\<forall>f \<in> set e2. startswith f text"
      using Cons.IH [of "cands @ e1" "seen \<union> set e1"] by blast
    have pair: "scan_entries text entries (cands, seen) = (cands @ e1, seen \<union> set e1)"
      using e1(1,2) by (simp add: prod_eq_iff)
    have step: "scan_path_dirs listdir text (d # ds) (cands, seen)
                 = scan_path_dirs listdir text ds (cands @ e1, seen \<union> set e1)"
      using l pair by simp
    have "fst (scan_path_dirs listdir text (d # ds) (cands, seen)) = cands @ (e1 @ e2)"
      using step e2(1) by simp
    moreover have "snd (scan_path_dirs listdir text (d # ds) (cands, seen)) = seen \<union> set (e1 @ e2)"
      using step e2(2) by auto
    moreover have "set (e1 @ e2) \<inter> seen = {}"
      using e1(3) e2(3) by auto
    moreover have "distinct (e1 @ e2)"
      using e1(4) e2(3,4) by auto
    moreover have "\<forall>f \<in> set (e1 @ e2). startswith f text"
      using e1(5) e2(5) by auto
    ultimately show ?thesis by blast
  qed
qed

lemma distinct_BUILTINS: "distinct BUILTINS"
  by (simp add: BUILTINS_def)

lemma distinct_builtin_matches: "distinct (builtin_matches text)"
  by (simp add: builtin_matches_def distinct_BUILTINS)

lemma builtin_matches_empty: "builtin_matches [] = BUILTINS"
  by (simp add: builtin_matches_def startswith_def)

lemma candidates_of_command:
  assumes "begidx_of env = 0"
  shows "\<exists>ext. candidates_of env t = builtin_matches t @ ext
          \<and> set ext \<inter> set (builtin_matches t) = {} \<and> distinct ext
          \<and> (\<forall>f \<in> set ext. startswith f t)"
proof -
  obtain ext where e:
    "fst (scan_path_dirs (ce_listdir env) t
            (str_split (CHR '':'') (case ce_PATH env of None \<Rightarrow> [] | Some p \<Rightarrow> p))
            (builtin_matches t, set (builtin_matches t))) = builtin_matches t @ ext"
    "set ext \<inter> set (builtin_matches t) = {}" "distinct ext" "\<forall>f \<in> set ext. startswith f t"
    using scan_path_dirs_prefix [of "ce_listdir env" t _ "builtin_matches t" "set (builtin_matches t)"]
    by blast
  have "candidates_of env t = builtin_matches t @ ext"
    using assms e(1) by (simp add: candidates_of_def Let_def)
  with e show ?thesis by blast
qed

lemma count_list_distinct:
  "distinct xs \<Longrightarrow> count_list xs x = (if x \<in> set xs then 1 else 0)"
  by (induction xs) auto

text \<open>
  Claim C7. At command position (the word under the cursor starts at column 0) the
  candidates are the builtins matching the prefix, in registry order, followed by names
  found on the search path; no candidate occurs twice, no name after the builtins is a
  builtin's name, every matching builtin occurs exactly once, and with the empty prefix
  every builtin occurs exactly once. \<open>completer\<close> enumerates exactly this list.
\<close>

theorem completer_command_position:
  assumes "begidx_of env = 0"
  shows "take (length (builtin_matches t)) (candidates_of env t) = builtin_matches t
       \<and> distinct (candidates_of env t)
       \<and> set (drop (length (builtin_matches t)) (candidates_of env t)) \<inter> set BUILTINS = {}
       \<and> (\<forall>b \<in> set BUILTINS. startswith b t \<longrightarrow> count_list (candidates_of env t) b = 1)
       \<and> (\<forall>b \<in> set BUILTINS. count_list (candidates_of env []) b = 1)
       \<and> (\<forall>i. completer env t i =
             (if i < length (candidates_of env t) then Some (candidates_of env t ! i) else None))"
proof -
  have shape: "\<exists>ext. candidates_of env u = builtin_matches u @ ext
          \<and> set ext \<inter> set (builtin_matches u) = {} \<and> distinct ext
          \<and> (\<forall>f \<in> set ext. startswith f u)" for u
    using assms by (rule candidates_of_command)
  have dist: "distinct (candidates_of env u)" for u
    using shape [of u] distinct_builtin_matches [of u] by auto
  have once: "count_list (candidates_of env u) b = 1" if "b \<in> set BUILTINS" "startswith b u" for u b
  proof -
    from that have "b \<in> set (builtin_matches u)" by (simp add: builtin_matches_def)
    moreover obtain ext where "candidates_of env u = builtin_matches u @ ext"
      using shape [of u] by blast
    ultimately have "b \<in> set (candidates_of env u)" by simp
    then show ?thesis using dist [of u] by (simp add: count_list_distinct)
  qed
  obtain ext where e: "candidates_of env t = builtin_matches t @ ext"
    "set ext \<inter> set (builtin_matches t) = {}" "\<forall>f \<in> set ext. startswith f t"
    using shape [of t] by blast
  have "take (length (builtin_matches t)) (candidates_of env t) = builtin_matches t"
    using e(1) by simp
  moreover have "set (drop (length (builtin_matches t)) (candidates_of env t)) \<inter> set BUILTINS = {}"
    using e by (auto simp: builtin_matches_def)
  moreover have "\<forall>b \<in> set BUILTINS. startswith b t \<longrightarrow> count_list (candidates_of env t) b = 1"
    using once by blast
  moreover have "\<forall>b \<in> set BUILTINS. count_list (candidates_of env []) b = 1"
    using once [of _ "[]"] by (simp add: startswith_def)
  moreover have "\<forall>i. completer env t i =
             (if i < length (candidates_of env t) then Some (candidates_of env t ! i) else None)"
    by (simp add: completer_def Let_def)
  ultimately show ?thesis using dist [of t] by blast
qed

theorem completer_command_position_witness:
  "begidx_of example_comp_env = 0
   \<and> candidates_of example_comp_env ''l'' = [''ls'', ''lsblk'']
   \<and> count_list (candidates_of example_comp_env ''l'') ''ls'' = 1
   \<and> count_list (candidates_of example_comp_env []) ''history'' = 1
   \<and> completer example_comp_env ''l'' 1 = Some ''lsblk'' \<and> completer example_comp_env ''l'' 2 = None"
proof -
  have h: "begidx_of example_comp_env = 0" by (simp add: begidx_of_def example_comp_env_def)
  have c: "candidates_of example_comp_env ''l'' = [''ls'', ''lsblk'']"
    by (simp add: candidates_of_def begidx_of_def example_comp_env_def builtin_matches_def
          BUILTINS_def startswith_def str_split_def Let_def)
  have b: "''ls'' \<in> set BUILTINS" "''history'' \<in> set BUILTINS" "startswith ''ls'' ''l''"
    by (simp_all add: BUILTINS_def startswith_def)
  from completer_command_position [OF h, of "''l''"] h c b show ?thesis
    by simp
qed


section \<open>Properties of the tokenizer\<close>

lemma read_word_plain:
  "list_all plain_char w \<Longrightarrow>
     read_tokens In_Word es tok quoted (w @ rest) = read_tokens In_Word es (tok @ w) quoted rest"
  by (induction w arbitrary: tok) (simp_all add: plain_char_def)

lemma read_space_plain:
  assumes "plain_token t"
  shows "read_tokens In_Space es [] False (t @ rest) = read_tokens In_Word es t False rest"
proof -
  from assms obtain c w where t: "t = c # w" "plain_char c" "list_all plain_char w"
    by (cases t) (auto simp: plain_token_def)
  have "read_tokens In_Space es [] False (t @ rest) = read_tokens In_Word es [c] False (w @ rest)"
    using t(1,2) by (simp add: plain_char_def)
  also have "\<dots> = read_tokens In_Word es ([c] @ w) False rest"
    using t(3) by (rule read_word_plain)
  finally show ?thesis using t(1) by simp
qed

lemma space_is_whitespace: "CHR '' '' \<in> set sh_whitespace"
  by (simp add: sh_whitespace_def)

lemma read_tokens_join_plain:
  "list_all plain_token ts \<Longrightarrow> read_tokens In_Space es [] False (join '' '' ts) = Inr ts"
proof (induction ts arbitrary: es)
  case Nil
  show ?case by (simp add: at_eof_def)
next
  case (Cons x ts)
  then have p: "plain_token x" and r: "list_all plain_token ts" by simp_all
  show ?case
  proof (cases ts)
    case Nil
    have "read_tokens In_Space es [] False (x @ []) = read_tokens In_Word es x False []"
      using p by (rule read_space_plain)
    then show ?thesis using p Nil by (simp add: at_eof_def plain_token_def)
  next
    case (Cons y ys)
    have "read_tokens In_Space es [] False (x @ '' '' @ join '' '' ts)
            = read_tokens In_Word es x False ('' '' @ join '' '' ts)"
      using p by (rule read_space_plain)
    also have "\<dots> = emit x (read_tokens In_Space In_Space [] False (join '' '' ts))"
      using p space_is_whitespace by (simp add: plain_token_def)
    also have "\<dots> = emit x (Inr ts)"
      using Cons.IH [OF r] by simp
    finally show ?thesis using Cons by (simp add: emit_def)
  qed
qed

text \<open>
  Claim C2, as amended. When a line tokenizes into tokens that are all non-empty and free
  of whitespace, quote and backslash characters, joining the tokens with single spaces
  and tokenizing again gives the same tokens.
\<close>

theorem retokenize_plain_tokens:
  assumes "shlex_split line = Inr ts" and "\<forall>t \<in> set ts. plain_token t"
  shows "shlex_split (join '' '' ts) = Inr ts"
  using assms(2) read_tokens_join_plain [of ts In_Space]
  by (simp add: shlex_split_def list_all_iff)

text \<open>
  Claim C2 as stated fails: the line \<open>"a b"\<close> (with its double quotes) is one token
  \<open>a b\<close>, which joined and tokenized again is two tokens.
\<close>

theorem retokenize_counterexample:
  "\<not> (\<forall>line ts. shlex_split line = Inr ts \<longrightarrow> shlex_split (join '' '' ts) = Inr ts)"
proof
  assume a: "\<forall>line ts. shlex_split line = Inr ts \<longrightarrow> shlex_split (join '' '' ts) = Inr ts"
  have 1: "shlex_split ([dquote] @ ''a b'' @ [dquote]) = Inr [''a b'']"
    by (simp add: shlex_split_def sh_whitespace_def sh_quotes_def sh_escape_def sh_escapedquotes_def
          squote_def dquote_def backslash_def at_eof_def emit_def)
  have 2: "shlex_split (join '' '' [''a b'']) = Inr [''a'', ''b'']"
    by (simp add: shlex_split_def sh_whitespace_def sh_quotes_def sh_escape_def sh_escapedquotes_def
          squote_def dquote_def backslash_def at_eof_def emit_def)
  from a 1 have "shlex_split (join '' '' [''a b'']) = Inr [''a b'']" by blast
  with 2 show False by simp
qed

theorem retokenize_plain_tokens_witness:
  "shlex_split ''mkdir  foo bar'' = Inr [''mkdir'', ''foo'', ''bar'']
   \<and> shlex_split (join '' '' [''mkdir'', ''foo'', ''bar'']) = Inr [''mkdir'', ''foo'', ''bar'']"
proof -
  have 1: "shlex_split ''mkdir  foo bar'' = Inr [''mkdir'', ''foo'', ''bar'']"
    by (simp add: shlex_split_def sh_whitespace_def sh_quotes_def sh_escape_def sh_escapedquotes_def
          squote_def dquote_def backslash_def at_eof_def emit_def)
  have 2: "\<forall>t \<in> set [''mkdir'', ''foo'', ''bar'']. plain_token t"
    by (simp add: plain_token_def plain_char_def sh_whitespace_def sh_quotes_def sh_escape_def
          squote_def dquote_def backslash_def)
  from retokenize_plain_tokens [OF 1 2] 1 show ?thesis by simp
qed

section \<open>Properties of the interpreter loop\<close>

lemma exit_quit_not_dispatched: "''exit'' \<notin> set DISPATCH_names" "''quit'' \<notin> set DISPATCH_names"
  by (simp_all add: DISPATCH_names_def)

text \<open>
  Claim C1, on the code. A line that is not blank and that \<open>shlex.split\<close> rejects is
  appended to the history, and then the \<open>ValueError\<close> leaves the loop: nothing is
  printed by the loop, and the events after the line are never read. The program's last
  block reports it as a fatal error.
\<close>

theorem tokenization_error_leaves_loop:
  assumes "op_getcwd ops w = Inr cwd" and "str_strip line \<noteq> []" and "shlex_split line = Inl e"
  shows "loop ops (Line line # rest) w
           = (Raised e, op_append_history_line ops line (op_input ops line w), [])"
  using assms by (simp add: Let_def)

theorem tokenization_error_leaves_loop_witness:
  "op_getcwd example_ops 0 = Inr ''/home/u''
   \<and> str_strip (''echo '' @ [squote] @ ''x'') \<noteq> []
   \<and> shlex_split (''echo '' @ [squote] @ ''x'') = Inl (ValueError ''No closing quotation'')
   \<and> loop example_ops [Line (''echo '' @ [squote] @ ''x''), Line ''pwd''] 0
        = (Raised (ValueError ''No closing quotation''), 1, [])
   \<and> fatal_report (fst (main_loop example_ops [Line (''echo '' @ [squote] @ ''x''), Line ''pwd''] 0))
        = [''Fatal error: No closing quotation'']"
proof -
  have g: "op_getcwd example_ops 0 = Inr ''/home/u''" by (simp add: example_ops_def)
  have s: "str_strip (''echo '' @ [squote] @ ''x'') \<noteq> []"
    by (simp add: str_strip_def py_isspace_def squote_def)
  have t: "shlex_split (''echo '' @ [squote] @ ''x'') = Inl (ValueError ''No closing quotation'')"
    by (simp add: shlex_split_def sh_whitespace_def sh_quotes_def sh_escape_def sh_escapedquotes_def
          squote_def dquote_def backslash_def at_eof_def emit_def)
  have l: "loop example_ops [Line (''echo '' @ [squote] @ ''x''), Line ''pwd''] 0
        = (Raised (ValueError ''No closing quotation''),
           op_append_history_line example_ops (''echo '' @ [squote] @ ''x'')
             (op_input example_ops (''echo '' @ [squote] @ ''x'') 0), [])"
    using tokenization_error_leaves_loop [OF g s t] .
  have a: "op_append_history_line example_ops (''echo '' @ [squote] @ ''x'')
             (op_input example_ops (''echo '' @ [squote] @ ''x'') 0) = 1"
    by (simp add: example_ops_def)
  have m: "main_loop example_ops [Line (''echo '' @ [squote] @ ''x''), Line ''pwd''] 0
        = (Raised (ValueError ''No closing quotation''), 1, [])"
    unfolding main_loop_def using g l a by (simp add: example_ops_def)
  show ?thesis using g s t l a m by simp
qed

text \<open>
  Claim C8. When the handler of a dispatched command raises an exception, the loop prints
  \<open><command>: error: <message>\<close> and goes on with the next event, in the state the
  handler left: the exception does not leave the loop.
\<close>

theorem handler_exception_rendered:
  assumes "op_getcwd ops w = Inr cwd" and "str_strip line \<noteq> []"
    and "shlex_split line = Inr (cmd # args)" and "cmd \<in> set DISPATCH_names"
    and "op_dispatch ops cmd args (op_append_history_line ops line (op_input ops line w)) = (Inl e, w')"
  shows "loop ops (Line line # rest) w
           = printed [cmd @ '': error: '' @ exc_str e] (loop ops rest w')"
proof -
  have "cmd \<noteq> ''exit''" "cmd \<noteq> ''quit''"
    using assms(4) exit_quit_not_dispatched by auto
  then show ?thesis using assms by (simp add: Let_def print_if_def)
qed

theorem handler_exception_rendered_witness:
  "op_getcwd example_ops 0 = Inr ''/home/u''
   \<and> shlex_split ''pwd now'' = Inr [''pwd'', ''now'']
   \<and> op_dispatch example_ops ''pwd'' [''now''] 1 = (Inl (OSError ENOENT ''.''), 1)
   \<and> loop example_ops [Line ''pwd now'', Line ''exit''] 0
        = (Exited, 2, [''pwd: error: [Errno 2] No such file or directory: '' @ [squote] @ ''.'' @ [squote]])"
proof -
  have g: "op_getcwd example_ops 0 = Inr ''/home/u''" by (simp add: example_ops_def)
  have s: "str_strip ''pwd now'' \<noteq> []"
    by (simp add: str_strip_def py_isspace_def)
  have t: "shlex_split ''pwd now'' = Inr (''pwd'' # [''now''])"
    by (simp add: shlex_split_def sh_whitespace_def sh_quotes_def sh_escape_def sh_escapedquotes_def
          squote_def dquote_def backslash_def at_eof_def emit_def)
  have d: "''pwd'' \<in> set DISPATCH_names" by (simp add: DISPATCH_names_def)
  have a: "op_append_history_line example_ops ''pwd now'' (op_input example_ops ''pwd now'' 0) = 1"
    by (simp add: example_ops_def)
  have h: "op_dispatch example_ops ''pwd'' [''now'']
             (op_append_history_line example_ops ''pwd now'' (op_input example_ops ''pwd now'' 0))
            = (Inl (OSError ENOENT ''.''), 1)"
    by (simp add: example_ops_def)
  have r: "loop example_ops [Line ''exit''] 1 = (Exited, 2, [])"
    by (simp add: example_ops_def str_strip_def py_isspace_def shlex_split_def sh_whitespace_def
          sh_quotes_def sh_escape_def sh_escapedquotes_def squote_def dquote_def backslash_def
          at_eof_def emit_def Let_def)
  have e: "exc_str (OSError ENOENT ''.'')
             = ''[Errno 2] No such file or directory: '' @ [squote] @ ''.'' @ [squote]"
    by code_simp
  have step: "loop example_ops [Line ''pwd now'', Line ''exit''] 0
        = printed [''pwd'' @ '': error: '' @ exc_str (OSError ENOENT ''.'')]
            (loop example_ops [Line ''exit''] 1)"
    using handler_exception_rendered [OF g s t d h, of "[Line ''exit'']"] .
  have "loop example_ops [Line ''pwd now'', Line ''exit''] 0
        = (Exited, 2, [''pwd: error: [Errno 2] No such file or directory: '' @ [squote] @ ''.'' @ [squote]])"
    unfolding step r e by (simp add: printed_def)
  then show ?thesis using g t h a by simp
qed


text \<open>
  Over a whole session: where the working directory can always be read and every line
  tokenizes, no exception leaves the loop, whatever the handlers raise.
\<close>

lemma fst_printed [simp]: "fst (printed ps r) = fst r"
  by (cases r) (simp add: printed_def)

lemma loop_raises_only_outside_handlers:
  assumes "\<And>w. \<exists>cwd. op_getcwd ops w = Inr cwd"
    and "\<forall>line. Line line \<in> set evs \<longrightarrow> (\<exists>parts. shlex_split line = Inr parts)"
  shows "fst (loop ops evs w) \<noteq> Raised e"
  using assms(2)
proof (induction evs arbitrary: w)
  case Nil
  obtain cwd where "op_getcwd ops w = Inr cwd" using assms(1) by blast
  then show ?case by simp
next
  case (Cons ev evs)
  obtain cwd where g: "op_getcwd ops w = Inr cwd" using assms(1) by blast
  have ih: "fst (loop ops evs w') \<noteq> Raised e" for w'
    using Cons.IH Cons.prems by simp
  show ?case
  proof (cases ev)
    case (Line line)
    then obtain parts where p: "shlex_split line = Inr parts" using Cons.prems by auto
    show ?thesis
      using g Line p ih
      by (auto simp: Let_def split: list.splits prod.splits sum.splits)
  next
    case KeyboardInterrupt
    then show ?thesis using g by simp
  next
    case EOFError
    then show ?thesis using g by simp
  qed
qed

declare resolve.simps(2) [simp del]

lemma fs_lookup_del: "fs_lookup (fs_del k fs) k' = (if k' = k \<and> k \<noteq> [] then None else fs_lookup fs k')"
  by (induction fs) (auto simp: fs_lookup_def fs_del_def)

lemma fs_lookup_put:
  "fs_lookup (fs_put k n fs) k' = (if k' = [] then Some Dir else if k' = k then Some n else fs_lookup fs k')"
  by (induction fs) (auto simp: fs_lookup_def fs_put_def fs_del_def)

lemma fs_lookup_put_other: "k' \<noteq> k \<Longrightarrow> fs_lookup (fs_put k n fs) k' = fs_lookup fs k'"
  by (cases "k' = []") (simp_all add: fs_lookup_put, simp add: fs_lookup_def)

lemma fs_lookup_root [simp]: "fs_lookup fs [] = Some Dir"
  by (simp add: fs_lookup_def)

text \<open>One step of the walk, case by case.\<close>

lemma resolve_not_there:
  "fs_lookup fs at = None \<Longrightarrow> resolve fs fuel at (c # cs) mode = Inl ENOENT"
  by (simp add: resolve.simps(2))

lemma resolve_not_dir:
  "fs_lookup fs at = Some n \<Longrightarrow> n \<noteq> Dir \<Longrightarrow> resolve fs fuel at (c # cs) mode = Inl ENOTDIR"
  by (cases n) (simp_all add: resolve.simps(2))

lemma resolve_follow_of_nofollow:
  "(resolve fs fuel at cs No_follow = Inl en \<longrightarrow> resolve fs fuel at cs Follow = Inl en)
   \<and> (resolve fs fuel at cs No_follow = Inr (f, k) \<longrightarrow> (\<forall>t. fs_lookup fs k \<noteq> Some (Symlink t))
        \<longrightarrow> resolve fs fuel at cs Follow = Inr (f, k))"
proof (induction fuel arbitrary: at cs rule: less_induct)
  case (less fuel)
  show ?case
  proof (induction cs arbitrary: at)
    case Nil
    show ?case by simp
  next
    case (Cons c cs)
    show ?case
    proof (cases "fs_lookup fs at")
      case None
      then show ?thesis by (simp add: resolve_not_there)
    next
      case (Some n)
      show ?thesis
      proof (cases "n = Dir")
        case False
        then show ?thesis using Some by (simp add: resolve_not_dir)
      next
        case True
        note d = Some [unfolded True]
        show ?thesis
        proof (cases "c = [] \<or> c = ''.'' \<or> c = ''..''")
          case True
          then show ?thesis using d Cons.IH by (auto simp: resolve.simps(2))
        next
          case False
          show ?thesis
          proof (cases "fs_lookup fs (at @ [c])")
            case None
            then show ?thesis using d False Cons.IH [of "at @ [c]"] by (simp add: resolve.simps(2))
          next
            case (Some e)
            show ?thesis
            proof (cases e)
              case (File x)
              then show ?thesis using d False Some Cons.IH [of "at @ [c]"] by (simp add: resolve.simps(2))
            next
              case Dir
              then show ?thesis using d False Some Cons.IH [of "at @ [c]"] by (simp add: resolve.simps(2))
            next
              case (Symlink t)
              show ?thesis
              proof (cases fuel)
                case 0
                then show ?thesis using d False Some Symlink by (auto simp: resolve.simps(2))
              next
                case (Suc n')
                have "n' < fuel" using Suc by simp
                from less.IH [OF this, of "if is_absolute t then [] else at" "names_of t @ cs"]
                show ?thesis using d False Some Symlink Suc by (auto simp: resolve.simps(2))
              qed
            qed
          qed
        qed
      qed
    qed
  qed
qed


lemma resolve_induct2 [case_names Nil Cons]:
  assumes "\<And>fuel at. P fuel at []"
    and "\<And>fuel at c cs. (\<And>at'. P fuel at' cs) \<Longrightarrow> (\<And>n at' cs'. n < fuel \<Longrightarrow> P n at' cs')
           \<Longrightarrow> P fuel at (c # cs)"
  shows "P (fuel :: nat) (at :: string list) (cs :: string list)"
proof -
  have "\<forall>at cs. P fuel at cs"
  proof (induction fuel rule: less_induct)
    case (less fuel)
    have "\<forall>at. P fuel at cs" for cs
    proof (induction cs)
      case Nil
      show ?case using assms(1) by blast
    next
      case (Cons c cs)
      show ?case
      proof
        fix at
        show "P fuel at (c # cs)"
        proof (rule assms(2))
          show "P fuel at' cs" for at' using Cons.IH by blast
          show "P n at' cs'" if "n < fuel" for n at' cs' using less.IH that by blast
        qed
      qed
    qed
    then show ?case by blast
  qed
  then show ?thesis by blast
qed

lemma resolve_append:
  assumes "ds \<noteq> []" and "mode = Create \<longrightarrow> ds \<noteq> [[]]"
  shows "resolve fs fuel at (cs @ ds) mode =
           (case resolve fs fuel at cs Follow of
              Inl en \<Rightarrow> Inl en
            | Inr (f, k) \<Rightarrow> resolve fs f k ds mode)"
proof (induction fuel at cs rule: resolve_induct2)
  case (Nil fuel at)
  show ?case by simp
next
  case (Cons fuel at c cs)
  have nc: "\<not> (mode = Create \<and> (cs @ ds = [[]] \<or> (cs @ ds = [] \<and> (c = ''.'' \<or> c = ''..''))))"
    using assms by (cases cs) auto
  show ?case
  proof (cases "fs_lookup fs at = Some Dir")
    case False
    then show ?thesis
      by (auto simp: resolve.simps(2) split: option.splits node.splits)
  next
    case d: True
    show ?thesis
    proof (cases "c = [] \<or> c = ''.'' \<or> c = ''..''")
      case True
      then show ?thesis using d nc Cons.IH(1) assms(1) by (auto simp: resolve.simps(2))
    next
      case False
      show ?thesis
      proof (cases "\<exists>t. fs_lookup fs (at @ [c]) = Some (Symlink t)")
        case False
        then have "resolve fs fuel at (c # cs @ ds) mode = resolve fs fuel (at @ [c]) (cs @ ds) mode"
          using d nc \<open>\<not> (c = [] \<or> c = ''.'' \<or> c = ''..'')\<close>
          by (auto simp: resolve.simps(2) split: option.splits node.splits)
        moreover have "resolve fs fuel at (c # cs) Follow = resolve fs fuel (at @ [c]) cs Follow"
          using False d \<open>\<not> (c = [] \<or> c = ''.'' \<or> c = ''..'')\<close>
          by (auto simp: resolve.simps(2) split: option.splits node.splits)
        ultimately show ?thesis using Cons.IH(1) [of "at @ [c]"] by simp
      next
        case True
        then obtain t where t: "fs_lookup fs (at @ [c]) = Some (Symlink t)" by blast
        show ?thesis
        proof (cases fuel)
          case 0
          then show ?thesis using d nc t assms(1) \<open>\<not> (c = [] \<or> c = ''.'' \<or> c = ''..'')\<close>
            by (simp add: resolve.simps(2))
        next
          case (Suc n)
          have "n < fuel" using Suc by simp
          from Cons.IH(2) [OF this, of "if is_absolute t then [] else at" "names_of t @ cs"]
          show ?thesis using d nc t assms(1) Suc \<open>\<not> (c = [] \<or> c = ''.'' \<or> c = ''..'')\<close>
            by (auto simp: resolve.simps(2))
        qed
      qed
    qed
  qed
qed

lemma resolve_drop_dot:
  assumes "d = [] \<or> d = ''.''" and "resolve fs fuel at (xs @ d # ys) Follow = Inr r"
  shows "resolve fs fuel at (xs @ ys) Follow = Inr r"
proof -
  from assms(2) obtain f k where x: "resolve fs fuel at xs Follow = Inr (f, k)"
    and y: "resolve fs f k (d # ys) Follow = Inr r"
    by (auto simp: resolve_append [of "d # ys" Follow] split: sum.splits)
  from y have "fs_lookup fs k = Some Dir"
    by (auto simp: resolve.simps(2) split: option.splits node.splits)
  with y assms(1) have z: "resolve fs f k ys Follow = Inr r"
    by (auto simp: resolve.simps(2))
  show ?thesis
  proof (cases "ys = []")
    case True
    then show ?thesis using x z by simp
  next
    case False
    then show ?thesis using x z by (simp add: resolve_append [of ys Follow])
  qed
qed

lemma resolve_drop_dots:
  "resolve fs fuel at (xs @ cs) Follow = Inr r
     \<Longrightarrow> resolve fs fuel at (xs @ filter (\<lambda>c. c \<noteq> [] \<and> c \<noteq> ''.'') cs) Follow = Inr r"
proof (induction cs arbitrary: xs)
  case Nil
  then show ?case by simp
next
  case (Cons c cs)
  show ?case
  proof (cases "c = [] \<or> c = ''.''")
    case True
    then have "resolve fs fuel at (xs @ cs) Follow = Inr r"
      using Cons.prems resolve_drop_dot by blast
    then show ?thesis using Cons.IH True by auto
  next
    case False
    have "resolve fs fuel at ((xs @ [c]) @ cs) Follow = Inr r" using Cons.prems by simp
    from Cons.IH [OF this] show ?thesis using False by simp
  qed
qed

text \<open>Down a chain of directories, by names that are neither \<open>.\<close> nor \<open>..\<close>.\<close>

lemma resolve_descend:
  assumes "list_all proper_name ms"
    and "\<forall>i<length ms. fs_lookup fs (k @ take i ms) = Some Dir"
    and "\<forall>t. fs_lookup fs (k @ ms) \<noteq> Some (Symlink t)"
  shows "resolve fs f k ms mode = Inr (f, k @ ms)"
  using assms
proof (induction ms arbitrary: k)
  case Nil
  show ?case by simp
next
  case (Cons m ms)
  have d: "fs_lookup fs k = Some Dir" using Cons.prems(2) by auto
  have m: "m \<noteq> []" "m \<noteq> ''.''" "m \<noteq> ''..''" using Cons.prems(1) by (auto simp: proper_name_def)
  have nl: "\<forall>t. fs_lookup fs (k @ [m]) \<noteq> Some (Symlink t)"
  proof (cases "ms = []")
    case True
    then show ?thesis using Cons.prems(3) by simp
  next
    case False
    then have "fs_lookup fs (k @ take 1 (m # ms)) = Some Dir" using Cons.prems(2) by force
    then show ?thesis by simp
  qed
  have ms: "ms \<noteq> [[]]" using Cons.prems(1) by (auto simp: proper_name_def)
  have step: "resolve fs f k (m # ms) mode = resolve fs f (k @ [m]) ms mode"
    using d m nl ms by (auto simp: resolve.simps(2) split: option.splits node.splits)
  have "list_all proper_name ms" using Cons.prems(1) by simp
  moreover have "\<forall>i<length ms. fs_lookup fs ((k @ [m]) @ take i ms) = Some Dir"
  proof (intro allI impI)
    fix i assume "i < length ms"
    then have "fs_lookup fs (k @ take (Suc i) (m # ms)) = Some Dir" using Cons.prems(2) by force
    then show "fs_lookup fs ((k @ [m]) @ take i ms) = Some Dir" by simp
  qed
  moreover have "\<forall>t. fs_lookup fs ((k @ [m]) @ ms) \<noteq> Some (Symlink t)" using Cons.prems(3) by simp
  ultimately have "resolve fs f (k @ [m]) ms mode = Inr (f, (k @ [m]) @ ms)" by (rule Cons.IH)
  then show ?case using step by simp
qed

text \<open>A walk that succeeds is not changed by a new entry that is not a link, at a place
  that was free or held a file.\<close>

lemma resolve_put:
  assumes "fs_lookup fs kn = None \<or> (\<exists>c. fs_lookup fs kn = Some (File c))" and "\<forall>t. x \<noteq> Symlink t"
  shows "resolve fs fuel at cs mode = Inr r \<Longrightarrow> resolve (fs_put kn x fs) fuel at cs mode = Inr r"
proof (induction fuel at cs rule: resolve_induct2)
  case (Nil fuel at)
  then show ?case by simp
next
  case (Cons fuel at c cs)
  from Cons.prems have d: "fs_lookup fs at = Some Dir"
    by (auto simp: resolve.simps(2) split: option.splits node.splits)
  then have "at \<noteq> kn \<or> at = []" using assms(1) by auto
  then have d': "fs_lookup (fs_put kn x fs) at = Some Dir"
    using d by (auto simp: fs_lookup_put)
  show ?case
  proof (cases "c = [] \<or> c = ''.'' \<or> c = ''..''")
    case True
    then show ?thesis using d d' Cons.prems Cons.IH(1)
      by (auto simp: resolve.simps(2) split: if_splits)
  next
    case False
    show ?thesis
    proof (cases "\<exists>t. fs_lookup fs (at @ [c]) = Some (Symlink t)")
      case True
      then obtain t where t: "fs_lookup fs (at @ [c]) = Some (Symlink t)" by blast
      then have "at @ [c] \<noteq> kn" using assms(1) by auto
      then have t': "fs_lookup (fs_put kn x fs) (at @ [c]) = Some (Symlink t)"
        using t by (simp add: fs_lookup_put_other)
      show ?thesis
      proof (cases fuel)
        case 0
        then show ?thesis using d d' t t' False Cons.prems
          by (auto simp: resolve.simps(2) split: if_splits)
      next
        case (Suc n)
        have "n < fuel" using Suc by simp
        note ih = Cons.IH(2) [OF this, of "if is_absolute t then [] else at" "names_of t @ cs"]
        show ?thesis using d d' t t' False Cons.prems Suc ih
          by (auto simp: resolve.simps(2) split: if_splits)
      qed
    next
      case nolink: False
      have nl': "\<nexists>t. fs_lookup (fs_put kn x fs) (at @ [c]) = Some (Symlink t)"
        using nolink assms(2) by (auto simp: fs_lookup_put)
      have "resolve fs fuel at (c # cs) mode = resolve fs fuel (at @ [c]) cs mode"
        using d False nolink Cons.prems
        by (auto simp: resolve.simps(2) split: option.splits node.splits if_splits)
      moreover have "resolve (fs_put kn x fs) fuel at (c # cs) mode
                       = resolve (fs_put kn x fs) fuel (at @ [c]) cs mode"
        using d d' False nl' Cons.prems
        by (auto simp: resolve.simps(2) split: option.splits node.splits if_splits)
      ultimately show ?thesis using Cons.prems Cons.IH(1) [of "at @ [c]"] by simp
    qed
  qed
qed

text \<open>A walk to open a file for writing goes the way of a walk that follows links.\<close>

lemma resolve_create_follow:
  "resolve fs fuel at cs Create = Inr r \<Longrightarrow> resolve fs fuel at cs Follow = Inr r"
proof (induction fuel at cs rule: resolve_induct2)
  case (Nil fuel at)
  then show ?case by simp
next
  case (Cons fuel at c cs)
  from Cons.prems have d: "fs_lookup fs at = Some Dir"
    by (auto simp: resolve.simps(2) split: option.splits node.splits)
  show ?case
  proof (cases "\<exists>t. fs_lookup fs (at @ [c]) = Some (Symlink t) \<and> \<not> (c = [] \<or> c = ''.'' \<or> c = ''..'')")
    case False
    then show ?thesis using d Cons.prems Cons.IH(1)
      by (auto simp: resolve.simps(2) split: option.splits node.splits if_splits)
  next
    case True
    then obtain t where t: "fs_lookup fs (at @ [c]) = Some (Symlink t)"
      and c: "\<not> (c = [] \<or> c = ''.'' \<or> c = ''..'')" by blast
    show ?thesis
    proof (cases fuel)
      case 0
      then show ?thesis using d t c Cons.prems by (auto simp: resolve.simps(2) split: if_splits)
    next
      case (Suc n)
      have "n < fuel" using Suc by simp
      note ih = Cons.IH(2) [OF this, of "if is_absolute t then [] else at" "names_of t @ cs"]
      show ?thesis using d t c Cons.prems Suc ih by (auto simp: resolve.simps(2) split: if_splits)
    qed
  qed
qed

section \<open>Properties of paths\<close>

lemma split_acc_nosep: "sep \<notin> set s \<Longrightarrow> split_acc sep cur s = [cur @ s]"
  by (induction s arbitrary: cur) auto

lemma split_acc_sep:
  "split_acc sep cur (a @ sep # b) = split_acc sep cur a @ split_acc sep [] b"
  by (induction a arbitrary: cur) auto

lemma str_split_sep: "str_split sep (a @ sep # b) = str_split sep a @ str_split sep b"
  by (simp add: str_split_def split_acc_sep)

lemma str_split_nosep: "sep \<notin> set s \<Longrightarrow> str_split sep s = [s]"
  by (simp add: str_split_def split_acc_nosep)

lemma split_acc_parts: "sep \<notin> set cur \<Longrightarrow> c \<in> set (split_acc sep cur s) \<Longrightarrow> sep \<notin> set c"
proof (induction s arbitrary: cur)
  case Nil
  then show ?case by simp
next
  case (Cons x s)
  show ?case
  proof (cases "x = sep")
    case True
    with Cons.prems have "c = cur \<or> c \<in> set (split_acc sep [] s)" by simp
    then show ?thesis using Cons.prems(1) Cons.IH [of "[]"] by auto
  next
    case False
    with Cons.prems have "c \<in> set (split_acc sep (cur @ [x]) s)" by simp
    then show ?thesis using Cons.prems(1) False Cons.IH [of "cur @ [x]"] by auto
  qed
qed

lemma str_split_parts: "c \<in> set (str_split sep s) \<Longrightarrow> sep \<notin> set c"
  using split_acc_parts [of sep "[]" c s] by (simp add: str_split_def)

lemma components_parts: "c \<in> set (components p) \<Longrightarrow> CHR ''/'' \<notin> set c \<and> c \<noteq> [] \<and> c \<noteq> ''.''"
  using str_split_parts [of c "CHR ''/''" p] by (auto simp: components_def)

lemma components_sep: "components (a @ CHR ''/'' # b) = components a @ components b"
  by (simp add: components_def str_split_sep)

lemma components_name:
  "CHR ''/'' \<notin> set n \<Longrightarrow> components n = (if n = [] \<or> n = ''.'' then [] else [n])"
  by (simp add: components_def str_split_nosep)

lemma components_Nil [simp]: "components [] = []"
  by (simp add: components_def str_split_def)

lemma str_split_join:
  "names \<noteq> [] \<Longrightarrow> \<forall>c \<in> set names. sep \<notin> set c \<Longrightarrow> str_split sep (join [sep] names) = names"
proof (induction names)
  case Nil
  then show ?case by simp
next
  case (Cons x xs)
  show ?case
  proof (cases xs)
    case Nil
    then show ?thesis using Cons.prems by (simp add: str_split_nosep)
  next
    case (Cons y ys)
    have "str_split sep (join [sep] (x # xs)) = str_split sep (x @ sep # join [sep] xs)"
      using Cons by simp
    also have "\<dots> = str_split sep x @ str_split sep (join [sep] xs)"
      by (rule str_split_sep)
    also have "\<dots> = x # xs"
      using Cons.IH Cons.prems Cons by (simp add: str_split_nosep)
    finally show ?thesis .
  qed
qed

lemma components_join:
  assumes "\<forall>c \<in> set names. CHR ''/'' \<notin> set c \<and> c \<noteq> [] \<and> c \<noteq> ''.''"
  shows "components (join ''/'' names) = names"
proof (cases "names = []")
  case True
  then show ?thesis by simp
next
  case False
  then have "str_split (CHR ''/'') (join ''/'' names) = names"
    using assms by (intro str_split_join) auto
  then show ?thesis using assms by (simp add: components_def filter_id_conv)
qed

lemma components_slash: "components (CHR ''/'' # p) = components p"
  using components_sep [of "[]" p] by simp

lemma components_Path: "components (Path p) = components p"
proof -
  have j: "components (join ''/'' (components p)) = components p"
    by (rule components_join) (use components_parts in blast)
  have "components (path_root p @ join ''/'' (components p)) = components p"
    using j by (auto simp: path_root_def components_slash)
  moreover have "components ''.'' = []"
    by (simp add: components_def str_split_def)
  ultimately show ?thesis by (simp add: Path_def)
qed

lemma startswith_slash: "startswith p ''/'' \<longleftrightarrow> (p \<noteq> [] \<and> hd p = CHR ''/'')"
  by (cases p) (auto simp: startswith_def)

lemma join_hd:
  assumes "names \<noteq> []" and "hd names \<noteq> []"
  shows "join sep names \<noteq> [] \<and> hd (join sep names) = hd (hd names)"
proof (cases names)
  case Nil
  then show ?thesis using assms by simp
next
  case (Cons x xs)
  then show ?thesis using assms by (cases xs) auto
qed

lemma absolute_Path: "startswith (Path p) ''/'' \<longleftrightarrow> startswith p ''/''"
proof (cases "startswith p ''/''")
  case True
  then have "path_root p \<noteq> [] \<and> hd (path_root p) = CHR ''/''"
    by (auto simp: path_root_def)
  then show ?thesis using True by (auto simp: Path_def startswith_slash)
next
  case False
  then have r: "path_root p = []"
  proof -
    have "\<not> startswith p ''//''"
      using False by (cases p) (auto simp: startswith_def)
    then show ?thesis using False by (simp add: path_root_def)
  qed
  show ?thesis
  proof (cases "components p = []")
    case True
    then show ?thesis using False r by (simp add: Path_def startswith_slash)
  next
    case nonempty: False
    then have "hd (components p) \<in> set (components p)" by simp
    then have h: "hd (components p) \<noteq> []" "CHR ''/'' \<notin> set (hd (components p))"
      using components_parts by blast+
    then have "hd (hd (components p)) \<noteq> CHR ''/''"
      by (cases "hd (components p)") auto
    then show ?thesis using False r nonempty h join_hd [of "components p" "''/''"]
      by (simp add: Path_def startswith_slash)
  qed
qed

lemma Path_nonempty: "Path p \<noteq> []"
proof (cases "components p = [] \<and> path_root p = []")
  case True
  then show ?thesis by (simp add: Path_def)
next
  case False
  show ?thesis
  proof (cases "path_root p = []")
    case True
    with False have c: "components p \<noteq> []" by simp
    then have "hd (components p) \<in> set (components p)" by simp
    then have "hd (components p) \<noteq> []" using components_parts by blast
    then show ?thesis using c True join_hd [of "components p" "''/''"] by (simp add: Path_def)
  next
    case False
    then show ?thesis by (simp add: Path_def)
  qed
qed


lemma expanduser_fs [simp]: "expanduser (w\<lparr>w_fs := f\<rparr>) p = expanduser w p"
proof -
  have h: "w_home (w\<lparr>w_fs := f\<rparr>) = w_home w" "w_user_home (w\<lparr>w_fs := f\<rparr>) = w_user_home w"
    by simp_all
  show ?thesis unfolding expanduser_def h ..
qed

lemma path_name_proper:
  "path_name p \<noteq> [] \<Longrightarrow> path_name p \<noteq> ''..'' \<Longrightarrow> proper_name (path_name p)"
  using components_parts [of "last (components p)" p]
  by (auto simp: path_name_def proper_name_def split: if_splits)

lemma components_os_path_join:
  assumes "proper_name n" and "d \<noteq> []"
  shows "components (os_path_join d n) = components d @ [n]"
proof -
  have n: "CHR ''/'' \<notin> set n" "n \<noteq> []" "n \<noteq> ''.''" "\<not> startswith n ''/''"
    using assms(1) by (auto simp: proper_name_def startswith_slash) (metis list.set_sel(1))
  have cn: "components n = [n]" using n by (simp add: components_name)
  show ?thesis
  proof (cases "last d = CHR ''/''")
    case True
    then obtain d' where d: "d = d' @ ''/''"
      using assms(2) by (metis append_butlast_last_id)
    have "components (d @ n) = components d' @ components n"
      using d components_sep [of d' n] by simp
    moreover have "components d = components d'"
      using d components_sep [of d' "[]"] by simp
    ultimately show ?thesis using True assms(2) n cn by (simp add: os_path_join_def)
  next
    case False
    have "components (d @ ''/'' @ n) = components d @ components n"
      using components_sep [of d n] by simp
    then show ?thesis using False assms(2) n cn by (simp add: os_path_join_def)
  qed
qed

lemma absolute_os_path_join:
  assumes "proper_name n" and "d \<noteq> []"
  shows "startswith (os_path_join d n) ''/'' \<longleftrightarrow> startswith d ''/''"
proof -
  have "\<not> startswith n ''/''"
    using assms(1) by (auto simp: proper_name_def startswith_slash) (metis list.set_sel(1))
  then show ?thesis using assms(2)
    by (cases d) (auto simp: os_path_join_def startswith_def)
qed

lemma path_div_nonempty: "path_div d n \<noteq> []"
  by (simp add: path_div_def Path_nonempty)

lemma path_of_parts: "path_of (path_root p) (components p) = Path p"
  by (simp add: path_of_def Path_def)

text \<open>The names the kernel reads in a path that \<open>pathlib\<close> has written.\<close>

lemma path_names_sep: "path_names (a @ CHR ''/'' # b) = path_names a @ path_names b"
  by (simp add: path_names_def str_split_sep)

lemma path_names_name: "CHR ''/'' \<notin> set n \<Longrightarrow> path_names n = (if n = [] then [] else [n])"
  by (simp add: path_names_def str_split_nosep)

lemma path_names_slash: "path_names (CHR ''/'' # p) = path_names p"
  using path_names_sep [of "[]" p] by (simp add: path_names_name)

lemma path_names_join:
  assumes "\<forall>c \<in> set names. CHR ''/'' \<notin> set c \<and> c \<noteq> []"
  shows "path_names (join ''/'' names) = names"
proof (cases "names = []")
  case True
  then show ?thesis by (simp add: path_names_name)
next
  case False
  then have "str_split (CHR ''/'') (join ''/'' names) = names"
    using assms by (intro str_split_join) auto
  then show ?thesis using assms by (simp add: path_names_def filter_id_conv)
qed

lemma components_path_names: "components p = filter (\<lambda>c. c \<noteq> ''.'') (path_names p)"
  by (simp add: components_def path_names_def conj_commute)

lemma components_names_of: "components p = filter (\<lambda>c. c \<noteq> [] \<and> c \<noteq> ''.'') (names_of p)"
  by (simp add: components_def path_names_def names_of_def)

lemma path_root_cases: "path_root p = [] \<or> path_root p = ''/'' \<or> path_root p = ''//''"
  by (simp add: path_root_def)

lemma path_names_path_of:
  assumes "\<forall>c \<in> set names. CHR ''/'' \<notin> set c \<and> c \<noteq> []"
    and "root = [] \<or> root = ''/'' \<or> root = ''//''"
  shows "path_names (path_of root names) = (if names = [] \<and> root = [] then [''.''] else names)"
proof -
  have j: "path_names (join ''/'' names) = names" using assms(1) by (rule path_names_join)
  have d: "path_names ''.'' = [''.'']" by (simp add: path_names_name)
  show ?thesis using assms(2) j d by (auto simp: path_of_def path_names_slash)
qed

lemma last_join:
  "names \<noteq> [] \<Longrightarrow> last names \<noteq> []
     \<Longrightarrow> join sep names \<noteq> [] \<and> last (join sep names) = last (last names)"
proof (induction names)
  case Nil
  then show ?case by simp
next
  case (Cons x xs)
  show ?case
  proof (cases xs)
    case Nil
    then show ?thesis using Cons.prems by simp
  next
    case (Cons y ys)
    have r: "join sep (y # ys) \<noteq> []" "last (join sep (y # ys)) = last (last (y # ys))"
      using Cons.IH Cons.prems Cons by simp_all
    have "last (x @ sep @ join sep (y # ys)) = last (join sep (y # ys))"
      using r(1) by simp
    then show ?thesis using Cons r by simp
  qed
qed

lemma not_trailing_path_of:
  assumes "\<forall>c \<in> set names. CHR ''/'' \<notin> set c \<and> c \<noteq> []"
    and "root = [] \<or> root = ''/'' \<or> root = ''//''"
  shows "\<not> trailing_slash (path_of root names)"
proof (cases "names = []")
  case True
  then show ?thesis using assms(2)
    by (auto simp: trailing_slash_def path_of_def path_names_slash path_names_name)
next
  case False
  have l: "last names \<noteq> []" "CHR ''/'' \<notin> set (last names)" using False assms(1) by auto
  then have "last (last names) \<noteq> CHR ''/''" by (metis last_in_set)
  then have "last (join ''/'' names) \<noteq> CHR ''/''" using False l(1) by (simp add: last_join)
  moreover have "join ''/'' names \<noteq> []" using False l(1) by (simp add: last_join)
  ultimately show ?thesis using False by (simp add: trailing_slash_def path_of_def)
qed

lemma names_of_path_of:
  assumes "\<forall>c \<in> set names. CHR ''/'' \<notin> set c \<and> c \<noteq> []"
    and "root = [] \<or> root = ''/'' \<or> root = ''//''"
  shows "names_of (path_of root names) = (if names = [] \<and> root = [] then [''.''] else names)"
  using path_names_path_of [OF assms] not_trailing_path_of [OF assms] by (simp add: names_of_def)

lemma absolute_path_of:
  assumes "\<forall>c \<in> set names. CHR ''/'' \<notin> set c \<and> c \<noteq> []"
    and "root = [] \<or> root = ''/'' \<or> root = ''//''"
  shows "is_absolute (path_of root names) \<longleftrightarrow> root \<noteq> []"
proof (cases "root = []")
  case False
  then show ?thesis using assms(2) by (auto simp: is_absolute_def path_of_def startswith_def)
next
  case True
  show ?thesis
  proof (cases "names = []")
    case True
    then show ?thesis using \<open>root = []\<close> by (simp add: is_absolute_def path_of_def startswith_def)
  next
    case False
    then have h: "hd names \<noteq> []" "CHR ''/'' \<notin> set (hd names)" using assms(1) by auto
    then have "hd (hd names) \<noteq> CHR ''/''" by (cases "hd names") auto
    then show ?thesis using True False h(1) join_hd [of names "''/''"]
      by (simp add: is_absolute_def path_of_def startswith_slash)
  qed
qed

lemma components_ok: "\<forall>c \<in> set (components p). CHR ''/'' \<notin> set c \<and> c \<noteq> []"
  using components_parts by blast

lemma path_names_Path:
  "path_names (Path p) = (if components p = [] \<and> path_root p = [] then [''.''] else components p)"
  using path_names_path_of [OF components_ok path_root_cases, of p p] by (simp add: path_of_parts)

lemma names_of_Path:
  "names_of (Path p) = (if components p = [] \<and> path_root p = [] then [''.''] else components p)"
  using names_of_path_of [OF components_ok path_root_cases, of p p] by (simp add: path_of_parts)

lemma not_trailing_Path: "\<not> trailing_slash (Path p)"
  using not_trailing_path_of [OF components_ok path_root_cases, of p p] by (simp add: path_of_parts)

lemma is_absolute_Path: "is_absolute (Path p) \<longleftrightarrow> is_absolute p"
  by (simp add: is_absolute_def absolute_Path)

lemma start_dir_Path: "start_dir w (Path p) = start_dir w p"
  by (simp add: start_dir_def is_absolute_Path)

lemma start_dir_fs [simp]: "start_dir (w\<lparr>w_fs := f\<rparr>) p = start_dir w p"
  by (simp add: start_dir_def)

section \<open>Properties of \<open>rm\<close>\<close>


lemma os_stat_missing:
  assumes "os_lstat w p = Inl en"
  shows "os_stat w p = Inl en"
proof (cases "p = []")
  case True
  then show ?thesis using assms by (simp add: os_stat_def os_lstat_def found_def namei_def)
next
  case False
  show ?thesis
  proof (cases "resolve (w_fs w) 40 (start_dir w p) (names_of p) No_follow")
    case (Inl e)
    then have "e = en" using assms False by (simp add: os_lstat_def found_def namei_def)
    moreover have "resolve (w_fs w) 40 (start_dir w p) (names_of p) Follow = Inl e"
      using resolve_follow_of_nofollow [of "w_fs w" 40 "start_dir w p" "names_of p" e] Inl by auto
    ultimately show ?thesis using False by (simp add: os_stat_def found_def namei_def)
  next
    case (Inr r)
    obtain f k where r: "r = (f, k)" by (cases r)
    have l: "fs_lookup (w_fs w) k = None" and en: "en = ENOENT"
      using assms False Inr r by (auto simp: os_lstat_def found_def namei_def split: option.splits)
    have "resolve (w_fs w) 40 (start_dir w p) (names_of p) Follow = Inr (f, k)"
      using resolve_follow_of_nofollow [of "w_fs w" 40 "start_dir w p" "names_of p" ENOENT f k] Inr r l
      by auto
    then show ?thesis using False l en by (simp add: os_stat_def found_def namei_def)
  qed
qed

lemma dir_entry_Path: "dir_entry w (Path p) = os_lstat w (Path p)"
  by (simp add: dir_entry_def os_lstat_def names_of_def not_trailing_Path)


lemma rm_target_symlink:
  assumes "os_lstat w (Path (expanduser w target)) = Inr (k, Symlink t)"
  shows "rm_target target w = (w\<lparr>w_fs := fs_del k (w_fs w)\<rparr>, [])"
  using assms
  by (simp add: rm_target_def Let_def is_symlink_def os_unlink_def dir_entry_Path not_trailing_Path)


lemma rm_target_error:
  assumes "os_lstat w (Path (expanduser w target)) = Inl en"
  shows "rm_target target w =
           (w, [if en = ENOENT
                then ''rm: cannot remove '' @ [squote] @ target @ [squote] @ '': No such file or directory''
                else ''rm: '' @ target @ '': '' @ exc_str (OSError en (Path (expanduser w target)))])"
proof -
  have s: "os_stat w (Path (expanduser w target)) = Inl en"
    using assms by (rule os_stat_missing)
  show ?thesis using assms s
    by (simp add: rm_target_def Let_def is_dir_def os_unlink_def dir_entry_Path)
qed


lemma rm_targets_append:
  "rm_targets (xs @ ys) w =
     (case rm_targets xs w of
        (w1, out1) \<Rightarrow> (case rm_targets ys w1 of (w2, out2) \<Rightarrow> (w2, out1 @ out2)))"
  by (induction xs arbitrary: w) (auto split: prod.splits)







lemma cmd_rm_single: "cmd_rm [t] w = (case rm_target t w of (w', out) \<Rightarrow> (w', join [CHR 0x0A] out))"
  by (simp add: cmd_rm_def split: prod.splits)



lemma rm_targets_snoc:
  "rm_targets (pre @ t # post) w =
     (case rm_targets pre w of
        (w1, a) \<Rightarrow>
          (case rm_target t w1 of
             (w2, l) \<Rightarrow> (case rm_targets post w2 of (w3, b) \<Rightarrow> (w3, a @ l @ b))))"
  using rm_targets_append [of pre "t # post" w] by (auto split: prod.splits)

text \<open>
  Claim C10. Wherever a target of \<open>rm\<close> stands among the targets: when the loop comes to
  it and it is a symbolic link, whatever the link points to, the entry of the link is
  removed and no line is added; every other entry of the file system, the link's target
  and what is below it among them, stays as it is, and the targets after it are handled
  in that state.
\<close>

theorem rm_unlinks_symlink:
  assumes "rm_targets pre w = (w1, a)"
    and "os_lstat w1 (Path (expanduser w1 t)) = Inr (k, Symlink tg)"
  shows "cmd_rm (pre @ t # post) w =
           (case rm_targets post (w1\<lparr>w_fs := fs_del k (w_fs w1)\<rparr>) of
              (w3, b) \<Rightarrow> (w3, join [CHR 0x0A] (a @ b)))
       \<and> cmd_rm [t] w1 = (w1\<lparr>w_fs := fs_del k (w_fs w1)\<rparr>, [])
       \<and> fs_lookup (fs_del k (w_fs w1)) k = None
       \<and> (\<forall>k'. k' \<noteq> k \<longrightarrow> fs_lookup (fs_del k (w_fs w1)) k' = fs_lookup (w_fs w1) k')"
proof -
  have "k \<noteq> []"
    using assms(2)
    by (auto simp: os_lstat_def found_def fs_lookup_def split: if_splits sum.splits option.splits)
  moreover have "cmd_rm (pre @ t # post) w =
           (case rm_targets post (w1\<lparr>w_fs := fs_del k (w_fs w1)\<rparr>) of
              (w3, b) \<Rightarrow> (w3, join [CHR 0x0A] (a @ b)))"
    using assms(1) rm_target_symlink [OF assms(2)]
    by (simp add: cmd_rm_def rm_targets_snoc split: prod.splits)
  moreover have "cmd_rm [t] w1 = (w1\<lparr>w_fs := fs_del k (w_fs w1)\<rparr>, [])"
    using rm_target_symlink [OF assms(2)] by (simp add: cmd_rm_single)
  ultimately show ?thesis by (simp add: fs_lookup_del)
qed

theorem rm_unlinks_symlink_witness:
  "rm_targets [''missing.txt''] example_world
     = (example_world, [''rm: cannot remove '' @ [squote] @ ''missing.txt'' @ [squote] @ '': No such file or directory''])
   \<and> os_lstat example_world (Path (expanduser example_world ''lnk/l2''))
     = Inr ([''home'', ''u'', ''docs'', ''l2''], Symlink ''a.txt'')
   \<and> read_file example_world ''lnk/l2'' = Inr ''A''
   \<and> cmd_rm [''missing.txt'', ''lnk/l2'', ''lnk''] example_world
       = (example_world\<lparr>w_fs := fs_del [''home'', ''u'', ''lnk'']
                                  (fs_del [''home'', ''u'', ''docs'', ''l2''] (w_fs example_world))\<rparr>,
          ''rm: cannot remove '' @ [squote] @ ''missing.txt'' @ [squote] @ '': No such file or directory'')
   \<and> fs_lookup (fs_del [''home'', ''u'', ''docs'', ''l2''] (w_fs example_world))
         [''home'', ''u'', ''docs'', ''l2''] = None
   \<and> fs_lookup (fs_del [''home'', ''u'', ''docs'', ''l2''] (w_fs example_world))
         [''home'', ''u'', ''docs'', ''a.txt''] = Some (File ''A'')
   \<and> fs_lookup (fs_del [''home'', ''u'', ''docs'', ''l2''] (w_fs example_world))
         [''home'', ''u'', ''lnk''] = Some (Symlink ''docs'')"
proof -
  let ?w2 = "example_world\<lparr>w_fs := fs_del [''home'', ''u'', ''docs'', ''l2''] (w_fs example_world)\<rparr>"
  have m: "os_lstat example_world (Path (expanduser example_world ''missing.txt'')) = Inl ENOENT"
    by code_simp
  have p: "rm_targets [''missing.txt''] example_world
     = (example_world, [''rm: cannot remove '' @ [squote] @ ''missing.txt'' @ [squote] @ '': No such file or directory''])"
    using rm_target_error [OF m] by simp
  have l: "os_lstat example_world (Path (expanduser example_world ''lnk/l2''))
     = Inr ([''home'', ''u'', ''docs'', ''l2''], Symlink ''a.txt'')"
    by code_simp
  have d: "read_file example_world ''lnk/l2'' = Inr ''A''" by code_simp
  have l2: "os_lstat ?w2 (Path (expanduser ?w2 ''lnk''))
     = Inr ([''home'', ''u'', ''lnk''], Symlink ''docs'')"
    by code_simp
  have q: "rm_targets [''lnk''] ?w2 = (?w2\<lparr>w_fs := fs_del [''home'', ''u'', ''lnk''] (w_fs ?w2)\<rparr>, [])"
    using rm_target_symlink [OF l2] by simp
  have f1: "fs_lookup (w_fs example_world) [''home'', ''u'', ''lnk''] = Some (Symlink ''docs'')" by code_simp
  have f2: "fs_lookup (w_fs example_world) [''home'', ''u'', ''docs'', ''a.txt''] = Some (File ''A'')"
    by code_simp
  note inst = rm_unlinks_symlink [OF p l, of "[''lnk'']"]
  have r: "cmd_rm [''missing.txt'', ''lnk/l2'', ''lnk''] example_world
       = (example_world\<lparr>w_fs := fs_del [''home'', ''u'', ''lnk'']
                                  (fs_del [''home'', ''u'', ''docs'', ''l2''] (w_fs example_world))\<rparr>,
          ''rm: cannot remove '' @ [squote] @ ''missing.txt'' @ [squote] @ '': No such file or directory'')"
    using inst q by simp
  have g: "fs_lookup (fs_del [''home'', ''u'', ''docs'', ''l2''] (w_fs example_world))
             [''home'', ''u'', ''docs'', ''l2''] = None"
    using inst by blast
  have h1: "fs_lookup (fs_del [''home'', ''u'', ''docs'', ''l2''] (w_fs example_world))
              [''home'', ''u'', ''docs'', ''a.txt''] = Some (File ''A'')"
    using inst f2 by auto
  have h2: "fs_lookup (fs_del [''home'', ''u'', ''docs'', ''l2''] (w_fs example_world))
              [''home'', ''u'', ''lnk''] = Some (Symlink ''docs'')"
    using inst f1 by auto
  show ?thesis using p l d r g h1 h2 by blast
qed

section \<open>Properties of \<open>ls\<close>\<close>

text \<open>The path \<open>Path(path) / n\<close> leads to the entry \<open>n\<close> of the directory that \<open>path\<close>
  leads to.\<close>

lemma os_stat_dir:
  assumes "os_stat w path = Inr (k, Dir)"
  obtains f where "path \<noteq> []" and "fs_lookup (w_fs w) k = Some Dir"
    and "resolve (w_fs w) 40 (start_dir w path) (components path) Follow = Inr (f, k)"
proof -
  from assms obtain f where p: "path \<noteq> []"
    and r: "resolve (w_fs w) 40 (start_dir w path) (names_of path) Follow = Inr (f, k)"
    and l: "fs_lookup (w_fs w) k = Some Dir"
    by (auto simp: os_stat_def found_def namei_def split: if_splits sum.splits option.splits)
  have "resolve (w_fs w) 40 (start_dir w path) ([] @ names_of path) Follow = Inr (f, k)"
    using r by simp
  from resolve_drop_dots [OF this]
  have "resolve (w_fs w) 40 (start_dir w path) (components path) Follow = Inr (f, k)"
    by (simp add: components_names_of)
  then show ?thesis using p l that by blast
qed

lemma path_div_names:
  assumes "proper_name n" and "d \<noteq> []"
  shows "names_of (path_div d n) = components d @ [n]"
    and "path_names (path_div d n) = components d @ [n]"
    and "start_dir w (path_div d n) = start_dir w d"
proof -
  have c: "components (os_path_join d n) = components d @ [n]"
    using assms by (rule components_os_path_join)
  show "names_of (path_div d n) = components d @ [n]"
    using c by (simp add: path_div_def names_of_Path)
  show "path_names (path_div d n) = components d @ [n]"
    using c by (simp add: path_div_def path_names_Path)
  show "start_dir w (path_div d n) = start_dir w d"
    using absolute_os_path_join [OF assms]
    by (simp add: path_div_def start_dir_Path) (simp add: start_dir_def is_absolute_def)
qed

lemma resolve_name:
  assumes "fs_lookup fs k = Some Dir" and "proper_name n"
    and "mode = No_follow \<or> (\<forall>t. fs_lookup fs (k @ [n]) \<noteq> Some (Symlink t))"
  shows "resolve fs f k [n] mode = Inr (f, k @ [n])"
  using assms
  by (auto simp: resolve.simps(2) proper_name_def split: option.splits node.splits)

lemma namei_below:
  assumes "os_stat w path = Inr (k, Dir)" and "proper_name n"
    and "mode = No_follow \<or> (\<forall>t. fs_lookup (w_fs w) (k @ [n]) \<noteq> Some (Symlink t))"
  shows "namei w (path_div path n) (components path @ [n]) mode = Inr (k @ [n])"
proof -
  from assms(1) obtain f where p: "path \<noteq> []" and l: "fs_lookup (w_fs w) k = Some Dir"
    and r: "resolve (w_fs w) 40 (start_dir w path) (components path) Follow = Inr (f, k)"
    by (rule os_stat_dir)
  have n: "[n] \<noteq> [[]]" using assms(2) by (simp add: proper_name_def)
  have "resolve (w_fs w) 40 (start_dir w path) (components path @ [n]) mode
          = resolve (w_fs w) f k [n] mode"
    using r n by (simp add: resolve_append [of "[n]" mode])
  also have "\<dots> = Inr (f, k @ [n])"
    using l assms(2,3) by (rule resolve_name)
  finally show ?thesis
    using path_div_names(3) [OF assms(2) p, of w] by (simp add: namei_def path_div_nonempty)
qed

lemma os_lstat_below:
  assumes "os_stat w path = Inr (k, Dir)" and "proper_name n"
  shows "os_lstat w (path_div path n) = found w (Inr (k @ [n]))"
proof -
  have p: "path \<noteq> []" using assms(1) by (rule os_stat_dir)
  show ?thesis
    using namei_below [OF assms, of No_follow] path_div_names(1) [OF assms(2) p]
    by (simp add: os_lstat_def)
qed

lemma os_stat_below:
  assumes "os_stat w path = Inr (k, Dir)" and "proper_name n"
    and "\<forall>t. fs_lookup (w_fs w) (k @ [n]) \<noteq> Some (Symlink t)"
  shows "os_stat w (path_div path n) = found w (Inr (k @ [n]))"
proof -
  have p: "path \<noteq> []" using assms(1) by (rule os_stat_dir)
  show ?thesis
    using namei_below [OF assms(1,2), of Follow] assms(3) path_div_names(1) [OF assms(2) p]
    by (simp add: os_stat_def)
qed

lemma children_entry:
  "n \<in> set (children fs k) \<longleftrightarrow> (\<exists>e. map_of fs (k @ [n]) = Some e)"
proof
  assume "n \<in> set (children fs k)"
  then obtain key x where "(key, x) \<in> set fs" "key \<noteq> []" "butlast key = k" "last key = n"
    by (auto simp: children_def)
  then have "(k @ [n], x) \<in> set fs" by (metis append_butlast_last_id)
  then have "k @ [n] \<in> fst ` set fs" by force
  then show "\<exists>e. map_of fs (k @ [n]) = Some e"
    by (metis map_of_eq_None_iff not_Some_eq)
next
  assume "\<exists>e. map_of fs (k @ [n]) = Some e"
  then obtain e where "map_of fs (k @ [n]) = Some e" by blast
  then have "(k @ [n], e) \<in> set fs" by (rule map_of_SomeD)
  then show "n \<in> set (children fs k)" by (force simp: children_def)
qed

lemma tree_ok_entry:
  assumes "tree_ok fs" and "fs_lookup fs (k @ [n]) = Some e"
  shows "fs_lookup fs k = Some Dir" and "proper_name n"
proof -
  from assms(2) have "map_of fs (k @ [n]) = Some e" by (simp add: fs_lookup_def)
  then have m: "(k @ [n], e) \<in> set fs" by (rule map_of_SomeD)
  then have "fs_lookup fs (butlast (fst (k @ [n], e))) = Some Dir"
    and "list_all proper_name (fst (k @ [n], e))"
    using assms(1) unfolding tree_ok_def list_all_iff by blast+
  then show "fs_lookup fs k = Some Dir" and "proper_name n" by simp_all
qed

lemma mark_entry_below:
  assumes "os_stat w path = Inr (k, Dir)" and "proper_name n" and "fs_lookup (w_fs w) (k @ [n]) = Some e"
  shows "mark_entry w path n =
           n @ (case e of
                  Dir \<Rightarrow> ''/''
                | Symlink t \<Rightarrow> if is_dir w (path_div path n) then ''/'' else ''@''
                | File c \<Rightarrow> [])"
proof -
  have l: "os_lstat w (path_div path n) = Inr (k @ [n], e)"
    using os_lstat_below [OF assms(1,2)] assms(3) by (simp add: found_def)
  show ?thesis
  proof (cases e)
    case (Symlink t)
    then show ?thesis using l by (simp add: mark_entry_def Let_def is_symlink_def)
  next
    case Dir
    then have "os_stat w (path_div path n) = Inr (k @ [n], Dir)"
      using os_stat_below [OF assms(1,2)] assms(3) by (simp add: found_def)
    then show ?thesis using Dir by (simp add: mark_entry_def Let_def is_dir_def)
  next
    case (File c)
    then have "os_stat w (path_div path n) = Inr (k @ [n], File c)"
      using os_stat_below [OF assms(1,2)] assms(3) by (simp add: found_def)
    then show ?thesis using File l by (simp add: mark_entry_def Let_def is_dir_def is_symlink_def)
  qed
qed

lemma cmd_ls_default: "cmd_ls [] w = cmd_ls [''.''] w"
  by (simp add: cmd_ls_def)

text \<open>
  Claim C9, as amended. Where the directory can be listed, \<open>list_dir\<close> gives one item for
  each entry of the directory that the path leads to, the names in sorted order: the name
  followed by \<open>/\<close> when the entry is a directory or is a symbolic link that leads to a
  directory, by \<open>@\<close> when it is a symbolic link that does not lead to a directory, and
  the name alone when it is a regular file. \<open>cmd_ls\<close> joins the items with newlines and
  lists \<open>.\<close> when it has no argument.
\<close>

theorem list_dir_sorted_marked:
  assumes "tree_ok (w_fs w)" and "os_listdir w path = Inr names"
  shows "\<exists>k items. os_stat w path = Inr (k, Dir)
         \<and> set names = {n. \<exists>e. fs_lookup (w_fs w) (k @ [n]) = Some e} \<and> distinct names
         \<and> list_dir w path = Inr items
         \<and> cmd_ls [path] w = join [CHR 0x0A] items
         \<and> cmd_ls [] w = cmd_ls [''.''] w
         \<and> length items = length names
         \<and> sorted (sort names) \<and> set (sort names) = set names
         \<and> (\<forall>i < length names.
               items ! i =
                 sort names ! i @
                   (case fs_lookup (w_fs w) (k @ [sort names ! i]) of
                      Some Dir \<Rightarrow> ''/''
                    | Some (Symlink t) \<Rightarrow>
                        if is_dir w (path_div path (sort names ! i)) then ''/'' else ''@''
                    | _ \<Rightarrow> []))"
proof -
  from assms(2) obtain k where st: "os_stat w path = Inr (k, Dir)"
    and nm: "names = children (w_fs w) k"
    by (auto simp: os_listdir_def split: sum.splits node.splits)
  let ?items = "map (mark_entry w path) (sort names)"
  have l: "list_dir w path = Inr ?items"
    using assms(2) by (simp add: list_dir_def)
  have c: "cmd_ls [path] w = join [CHR 0x0A] ?items"
    using l by (simp add: cmd_ls_def)
  have d: "distinct names" using nm by (simp add: children_def)
  have s: "set names = {n. \<exists>e. fs_lookup (w_fs w) (k @ [n]) = Some e}"
    using nm by (auto simp: children_entry fs_lookup_def)
  have m: "\<forall>i < length names.
               ?items ! i =
                 sort names ! i @
                   (case fs_lookup (w_fs w) (k @ [sort names ! i]) of
                      Some Dir \<Rightarrow> ''/''
                    | Some (Symlink t) \<Rightarrow>
                        if is_dir w (path_div path (sort names ! i)) then ''/'' else ''@''
                    | _ \<Rightarrow> [])"
  proof (intro allI impI)
    fix i assume i: "i < length names"
    let ?n = "sort names ! i"
    have "?n \<in> set names" using i nth_mem [of i "sort names"] by simp
    then obtain e where e: "fs_lookup (w_fs w) (k @ [?n]) = Some e" using s by blast
    have p: "proper_name ?n" using assms(1) e by (rule tree_ok_entry)
    have "?items ! i = mark_entry w path ?n" using i by simp
    also have "\<dots> = ?n @ (case e of
                  Dir \<Rightarrow> ''/''
                | Symlink t \<Rightarrow> if is_dir w (path_div path ?n) then ''/'' else ''@''
                | File c \<Rightarrow> [])"
      using st p e by (rule mark_entry_below)
    finally show "?items ! i =
                 ?n @ (case fs_lookup (w_fs w) (k @ [?n]) of
                      Some Dir \<Rightarrow> ''/''
                    | Some (Symlink t) \<Rightarrow> if is_dir w (path_div path ?n) then ''/'' else ''@''
                    | _ \<Rightarrow> [])"
      using e by (cases e) simp_all
  qed
  show ?thesis
    using st s d l c m cmd_ls_default [of w]
    by (intro exI [of _ k] exI [of _ ?items]) simp
qed

text \<open>
  Claim C9 as stated fails: \<open>lnk\<close> is a symbolic link (to the directory \<open>docs\<close>) and is
  listed as \<open>lnk/\<close>, with the mark of a directory and not the mark of a link.
\<close>

theorem list_dir_symlink_to_dir_counterexample:
  "is_symlink example_world (path_div ''.'' ''lnk'')
   \<and> list_dir example_world ''.''
        = Inr [''docs/'', ''empty/'', ''existing.txt'', ''flnk@'', ''lnk/'']"
  by code_simp

theorem list_dir_sorted_marked_witness:
  "tree_ok (w_fs example_world)
   \<and> os_listdir example_world ''lnk'' = Inr [''a.txt'', ''sub'', ''l2'']
   \<and> sort [''a.txt'', ''sub'', ''l2''] = [''a.txt'', ''l2'', ''sub'']
   \<and> os_stat example_world ''lnk'' = Inr ([''home'', ''u'', ''docs''], Dir)
   \<and> list_dir example_world ''lnk'' = Inr [''a.txt'', ''l2@'', ''sub/'']
   \<and> cmd_ls [''lnk''] example_world = ''a.txt'' @ [CHR 0x0A] @ ''l2@'' @ [CHR 0x0A] @ ''sub/''
   \<and> cmd_ls [] example_world = cmd_ls [''.''] example_world"
proof -
  have 1: "tree_ok (w_fs example_world)" by code_simp
  have 2: "os_listdir example_world ''lnk'' = Inr [''a.txt'', ''sub'', ''l2'']" by code_simp
  have 3: "sort [''a.txt'', ''sub'', ''l2''] = [''a.txt'', ''l2'', ''sub'']" by code_simp
  have 4: "os_stat example_world ''lnk'' = Inr ([''home'', ''u'', ''docs''], Dir)" by code_simp
  have 5: "list_dir example_world ''lnk'' = Inr [''a.txt'', ''l2@'', ''sub/'']" by code_simp
  from list_dir_sorted_marked [OF 1 2]
  obtain items where "list_dir example_world ''lnk'' = Inr items"
    and c: "cmd_ls [''lnk''] example_world = join [CHR 0x0A] items"
    and e: "cmd_ls [] example_world = cmd_ls [''.''] example_world"
    by blast
  then have "items = [''a.txt'', ''l2@'', ''sub/'']" using 5 by simp
  then have "cmd_ls [''lnk''] example_world = ''a.txt'' @ [CHR 0x0A] @ ''l2@'' @ [CHR 0x0A] @ ''sub/''"
    using c by simp
  then show ?thesis using 1 2 3 4 5 e by blast
qed

section \<open>Properties of \<open>cp\<close>\<close>

declare mkdir_parents.simps [simp del]

lemma path_root_path_of:
  assumes "root = [] \<or> root = ''/'' \<or> root = ''//''"
    and "\<forall>c \<in> set names. CHR ''/'' \<notin> set c \<and> c \<noteq> []"
  shows "path_root (path_of root names) = root"
proof (cases "names = []")
  case True
  then show ?thesis using assms(1) by (auto simp: path_of_def path_root_def startswith_def)
next
  case False
  then have h: "hd names \<noteq> []" "CHR ''/'' \<notin> set (hd names)" using assms(2) by auto
  then have "hd (hd names) \<noteq> CHR ''/''" by (cases "hd names") auto
  then have j: "join ''/'' names \<noteq> []" "hd (join ''/'' names) \<noteq> CHR ''/''"
    using False h(1) join_hd [of names "''/''"] by auto
  then obtain x xs where "join ''/'' names = x # xs" "x \<noteq> CHR ''/''"
    by (cases "join ''/'' names") auto
  then show ?thesis using assms(1) False
    by (auto simp: path_of_def path_root_def startswith_def)
qed

lemma path_root_Path: "path_root (Path p) = path_root p"
  using path_root_path_of [OF path_root_cases components_ok, of p p] by (simp add: path_of_parts)

lemma Path_Path: "Path (Path p) = Path p"
proof -
  have "Path (Path p) = path_of (path_root (Path p)) (components (Path p))"
    by (simp add: path_of_parts)
  then show ?thesis by (simp add: path_root_Path components_Path path_of_parts)
qed

lemma path_of_nonempty:
  "root = [] \<or> root = ''/'' \<or> root = ''//'' \<Longrightarrow> \<forall>c \<in> set names. CHR ''/'' \<notin> set c \<and> c \<noteq> []
     \<Longrightarrow> path_of root names \<noteq> []"
  using join_hd [of names "''/''"] by (cases "names = []") (auto simp: path_of_def)

lemma start_dir_path_of:
  assumes "root = [] \<or> root = ''/'' \<or> root = ''//''"
    and "\<forall>c \<in> set names. CHR ''/'' \<notin> set c \<and> c \<noteq> []"
  shows "start_dir w (path_of root names) = (if root \<noteq> [] then [] else w_cwd w)"
  using absolute_path_of [OF assms(2,1)] by (simp add: start_dir_def)

lemma components_path_of:
  assumes "root = [] \<or> root = ''/'' \<or> root = ''//''"
    and "\<forall>c \<in> set names. CHR ''/'' \<notin> set c \<and> c \<noteq> [] \<and> c \<noteq> ''.''"
  shows "components (path_of root names) = names"
proof -
  have "path_names (path_of root names) = (if names = [] \<and> root = [] then [''.''] else names)"
    using assms by (intro path_names_path_of) auto
  then show ?thesis using assms(2) by (auto simp: components_path_names filter_id_conv)
qed

text \<open>A walk that succeeds goes the same way in a file system where the directories are
  still directories and the links are the same.\<close>

lemma resolve_mono:
  assumes "\<forall>k. fs_lookup fs k = Some Dir \<longrightarrow> fs_lookup fs' k = Some Dir"
    and "\<forall>k t. fs_lookup fs' k = Some (Symlink t) \<longleftrightarrow> fs_lookup fs k = Some (Symlink t)"
  shows "resolve fs fuel at cs mode = Inr r \<Longrightarrow> resolve fs' fuel at cs mode = Inr r"
proof (induction fuel at cs rule: resolve_induct2)
  case (Nil fuel at)
  then show ?case by simp
next
  case (Cons fuel at c cs)
  from Cons.prems have d: "fs_lookup fs at = Some Dir"
    by (auto simp: resolve.simps(2) split: option.splits node.splits)
  then have d': "fs_lookup fs' at = Some Dir" using assms(1) by blast
  show ?case
  proof (cases "c = [] \<or> c = ''.'' \<or> c = ''..''")
    case True
    then show ?thesis using d d' Cons.prems Cons.IH(1)
      by (auto simp: resolve.simps(2) split: if_splits)
  next
    case False
    show ?thesis
    proof (cases "\<exists>t. fs_lookup fs (at @ [c]) = Some (Symlink t)")
      case True
      then obtain t where t: "fs_lookup fs (at @ [c]) = Some (Symlink t)" by blast
      then have t': "fs_lookup fs' (at @ [c]) = Some (Symlink t)" using assms(2) by blast
      show ?thesis
      proof (cases fuel)
        case 0
        then show ?thesis using d d' t t' False Cons.prems
          by (auto simp: resolve.simps(2) split: if_splits)
      next
        case (Suc n)
        have "n < fuel" using Suc by simp
        note ih = Cons.IH(2) [OF this, of "if is_absolute t then [] else at" "names_of t @ cs"]
        show ?thesis using d d' t t' False Cons.prems Suc ih
          by (auto simp: resolve.simps(2) split: if_splits)
      qed
    next
      case nolink: False
      have nl': "\<nexists>t. fs_lookup fs' (at @ [c]) = Some (Symlink t)"
        using nolink assms(2) by blast
      have "resolve fs fuel at (c # cs) mode = resolve fs fuel (at @ [c]) cs mode"
        using d False nolink Cons.prems
        by (auto simp: resolve.simps(2) split: option.splits node.splits if_splits)
      moreover have "resolve fs' fuel at (c # cs) mode = resolve fs' fuel (at @ [c]) cs mode"
        using d d' False nl' Cons.prems
        by (auto simp: resolve.simps(2) split: option.splits node.splits if_splits)
      ultimately show ?thesis using Cons.prems Cons.IH(1) [of "at @ [c]"] by simp
    qed
  qed
qed

lemma os_stat_mono:
  assumes "\<forall>k. fs_lookup (w_fs w) k = Some Dir \<longrightarrow> fs_lookup fs' k = Some Dir"
    and "\<forall>k t. fs_lookup fs' k = Some (Symlink t) \<longleftrightarrow> fs_lookup (w_fs w) k = Some (Symlink t)"
    and "os_stat w p = Inr (k, n)" and "fs_lookup fs' k = Some n'"
  shows "os_stat (w\<lparr>w_fs := fs'\<rparr>) p = Inr (k, n')"
proof -
  from assms(3) obtain f where p: "p \<noteq> []"
    and r: "resolve (w_fs w) 40 (start_dir w p) (names_of p) Follow = Inr (f, k)"
    by (auto simp: os_stat_def found_def namei_def split: if_splits sum.splits option.splits)
  have "resolve fs' 40 (start_dir w p) (names_of p) Follow = Inr (f, k)"
    using assms(1,2) r by (rule resolve_mono)
  then show ?thesis using p assms(4) by (simp add: os_stat_def found_def namei_def)
qed

lemma tree_ok_below:
  assumes "tree_ok fs" and "fs_lookup fs k = None"
  shows "fs_lookup fs (k @ x) = None"
proof (induction x rule: rev_induct)
  case Nil
  show ?case using assms(2) by simp
next
  case (snoc n x)
  show ?case
  proof (cases "fs_lookup fs (k @ x @ [n])")
    case None
    then show ?thesis by simp
  next
    case (Some e)
    then have "fs_lookup fs ((k @ x) @ [n]) = Some e" by simp
    from tree_ok_entry(1) [OF assms(1) this] snoc.IH show ?thesis by simp
  qed
qed

lemma resolve_missing_first:
  assumes "fs_lookup fs k = Some Dir" and "proper_name m" and "fs_lookup fs (k @ [m]) = None"
    and "rest \<noteq> []" and "rest \<noteq> [[]]"
  shows "resolve fs f k (m # rest) mode = Inl ENOENT"
proof -
  obtain c cs where rest: "rest = c # cs" using assms(4) by (cases rest) auto
  have "resolve fs f k (m # rest) mode = resolve fs f (k @ [m]) rest mode"
    using assms by (auto simp: resolve.simps(2) proper_name_def)
  also have "\<dots> = Inl ENOENT" using assms(3) rest by (simp add: resolve_not_there)
  finally show ?thesis .
qed

lemma namei_path_of:
  assumes "root = [] \<or> root = ''/'' \<or> root = ''//''"
    and "\<forall>c \<in> set cs. CHR ''/'' \<notin> set c \<and> c \<noteq> []" and "cs \<noteq> []"
  shows "namei w (path_of root cs) (path_names (path_of root cs)) mode =
           (case resolve (w_fs w) 40 (if root \<noteq> [] then [] else w_cwd w) cs mode of
              Inl en \<Rightarrow> Inl en
            | Inr (f, k) \<Rightarrow> Inr k)"
  using path_names_path_of [OF assms(2,1)] path_of_nonempty [OF assms(1,2)]
    start_dir_path_of [OF assms(1,2), of w] assms(3)
  by (simp add: namei_def)

text \<open>\<open>os.mkdir\<close> at a path put together from a root and names.\<close>

lemma os_mkdir_path_of:
  assumes "root = [] \<or> root = ''/'' \<or> root = ''//''"
    and "\<forall>c \<in> set cs. CHR ''/'' \<notin> set c \<and> c \<noteq> []" and "cs \<noteq> []"
  shows "os_mkdir w (path_of root cs) =
           (case resolve (w_fs w) 40 (if root \<noteq> [] then [] else w_cwd w) cs No_follow of
              Inl en \<Rightarrow> Inl (OSError en (path_of root cs))
            | Inr (f, k) \<Rightarrow>
                (case fs_lookup (w_fs w) k of
                   Some n \<Rightarrow> Inl (OSError EEXIST (path_of root cs))
                 | None \<Rightarrow> Inr (w\<lparr>w_fs := fs_put k Dir (w_fs w)\<rparr>)))"
  by (simp add: os_mkdir_def namei_path_of [OF assms] split: sum.splits prod.splits)

lemma take_below_first:
  "ms \<noteq> [] \<Longrightarrow> 0 < i \<Longrightarrow> kd @ take i ms = (kd @ [hd ms]) @ take (i - 1) (tl ms)"
  by (cases ms; cases i) auto

text \<open>
  \<open>Path.mkdir(parents=True)\<close> below an existing directory, where the first name is
  free: every directory of the chain is made, and nothing else changes.
\<close>

lemma mkdir_parents_new:
  assumes t: "tree_ok (w_fs w)"
    and root: "root = [] \<or> root = ''/'' \<or> root = ''//''"
    and ns: "\<forall>c \<in> set ns. CHR ''/'' \<notin> set c \<and> c \<noteq> []"
    and r: "resolve (w_fs w) 40 (if root \<noteq> [] then [] else w_cwd w) ns Follow = Inr (f, kd)"
    and d: "fs_lookup (w_fs w) kd = Some Dir"
  shows "ms \<noteq> [] \<Longrightarrow> list_all proper_name ms \<Longrightarrow> fs_lookup (w_fs w) (kd @ [hd ms]) = None \<Longrightarrow>
         \<exists>fs'. mkdir_parents w root (ns @ ms) exist_ok = (None, w\<lparr>w_fs := fs'\<rparr>)
            \<and> (\<forall>i. 0 < i \<and> i \<le> length ms \<longrightarrow> fs_lookup fs' (kd @ take i ms) = Some Dir)
            \<and> (\<forall>k. (\<forall>i. 0 < i \<and> i \<le> length ms \<longrightarrow> k \<noteq> kd @ take i ms)
                   \<longrightarrow> fs_lookup fs' k = fs_lookup (w_fs w) k)"
proof (induction ms arbitrary: exist_ok rule: rev_induct)
  case Nil
  then show ?case by simp
next
  case (snoc m ms)
  let ?fs = "w_fs w"
  let ?start = "if root \<noteq> [] then [] else w_cwd w"
  let ?p = "path_of root (ns @ ms @ [m])"
  have m: "proper_name m" and pms: "list_all proper_name ms" using snoc.prems(2) by simp_all
  have cs: "\<forall>c \<in> set (ns @ ms @ [m]). CHR ''/'' \<notin> set c \<and> c \<noteq> []"
    using ns snoc.prems(2) by (auto simp: list_all_iff proper_name_def)
  have ne: "ns @ ms @ [m] \<noteq> []" by simp
  note mk = os_mkdir_path_of [OF root cs ne]
  have tail: "ms @ [m] \<noteq> [[]]" using m pms by (cases ms) (auto simp: proper_name_def)
  have app: "\<And>fs. resolve fs 40 ?start (ns @ ms @ [m]) No_follow =
               (case resolve fs 40 ?start ns Follow of
                  Inl en \<Rightarrow> Inl en
                | Inr (f, k) \<Rightarrow> resolve fs f k (ms @ [m]) No_follow)"
    by (rule resolve_append) simp_all
  show ?case
  proof (cases "ms = []")
    case True
    have "resolve ?fs f kd [m] No_follow = Inr (f, kd @ [m])"
      using d m by (intro resolve_name) simp_all
    then have "resolve ?fs 40 ?start (ns @ ms @ [m]) No_follow = Inr (f, kd @ [m])"
      using app [of ?fs] r True by simp
    moreover have "fs_lookup ?fs (kd @ [m]) = None" using snoc.prems(3) True by simp
    ultimately have "os_mkdir w ?p = Inr (w\<lparr>w_fs := fs_put (kd @ [m]) Dir ?fs\<rparr>)"
      using mk [of w] by simp
    then have 1: "mkdir_parents w root (ns @ ms @ [m]) exist_ok
                    = (None, w\<lparr>w_fs := fs_put (kd @ [m]) Dir ?fs\<rparr>)"
      by (subst mkdir_parents.simps) simp
    have 2: "\<forall>i. 0 < i \<and> i \<le> length (ms @ [m])
                \<longrightarrow> fs_lookup (fs_put (kd @ [m]) Dir ?fs) (kd @ take i (ms @ [m])) = Some Dir"
      using True by (auto simp: fs_lookup_put)
    have 3: "\<forall>k. (\<forall>i. 0 < i \<and> i \<le> length (ms @ [m]) \<longrightarrow> k \<noteq> kd @ take i (ms @ [m]))
                \<longrightarrow> fs_lookup (fs_put (kd @ [m]) Dir ?fs) k = fs_lookup ?fs k"
    proof (intro allI impI)
      fix k
      assume "\<forall>i. 0 < i \<and> i \<le> length (ms @ [m]) \<longrightarrow> k \<noteq> kd @ take i (ms @ [m])"
      from this [rule_format, of 1] True have "k \<noteq> kd @ [m]" by simp
      then show "fs_lookup (fs_put (kd @ [m]) Dir ?fs) k = fs_lookup ?fs k"
        by (rule fs_lookup_put_other)
    qed
    show ?thesis using 1 2 3 by (intro exI [of _ "fs_put (kd @ [m]) Dir ?fs"]) simp
  next
    case False
    then have hd: "hd (ms @ [m]) = hd ms" by simp
    have free: "fs_lookup ?fs (kd @ [hd ms]) = None" using snoc.prems(3) hd by simp
    have phd: "proper_name (hd ms)" using pms False by (cases ms) simp_all
    obtain x xs where ms: "ms = x # xs" using False by (cases ms) auto
    have "xs @ [m] \<noteq> [[]]" using m by (cases xs) (auto simp: proper_name_def)
    then have "resolve ?fs f kd (x # xs @ [m]) No_follow = Inl ENOENT"
      using d phd free ms by (intro resolve_missing_first) simp_all
    then have "resolve ?fs f kd (ms @ [m]) No_follow = Inl ENOENT" using ms by simp
    then have "resolve ?fs 40 ?start (ns @ ms @ [m]) No_follow = Inl ENOENT"
      using app [of ?fs] r by simp
    then have e: "os_mkdir w ?p = Inl (OSError ENOENT ?p)" using mk [of w] by simp
    from snoc.IH [OF False pms free, of True] obtain fs1 where
      1: "mkdir_parents w root (ns @ ms) True = (None, w\<lparr>w_fs := fs1\<rparr>)"
      and 2: "\<forall>i. 0 < i \<and> i \<le> length ms \<longrightarrow> fs_lookup fs1 (kd @ take i ms) = Some Dir"
      and 3: "\<forall>k. (\<forall>i. 0 < i \<and> i \<le> length ms \<longrightarrow> k \<noteq> kd @ take i ms)
                \<longrightarrow> fs_lookup fs1 k = fs_lookup ?fs k"
      by blast
    have newfree: "fs_lookup ?fs (kd @ take i ms) = None" if "0 < i" for i
      using tree_ok_below [OF t free, of "take (i - 1) (tl ms)"] take_below_first [OF False that, of kd]
      by simp
    have same: "fs_lookup fs1 k = fs_lookup ?fs k" if "fs_lookup ?fs k \<noteq> None" for k
    proof -
      have "\<forall>i. 0 < i \<and> i \<le> length ms \<longrightarrow> k \<noteq> kd @ take i ms"
        using that newfree by auto
      then show ?thesis using 3 by blast
    qed
    have dirs: "\<forall>k. fs_lookup ?fs k = Some Dir \<longrightarrow> fs_lookup fs1 k = Some Dir"
      using same by auto
    have links: "\<forall>k t. fs_lookup fs1 k = Some (Symlink t) \<longleftrightarrow> fs_lookup ?fs k = Some (Symlink t)"
    proof (intro allI)
      fix k t
      show "fs_lookup fs1 k = Some (Symlink t) \<longleftrightarrow> fs_lookup ?fs k = Some (Symlink t)"
      proof (cases "\<exists>i. 0 < i \<and> i \<le> length ms \<and> k = kd @ take i ms")
        case True
        then show ?thesis using 2 newfree by auto
      next
        case False
        then have "fs_lookup fs1 k = fs_lookup ?fs k" using 3 by blast
        then show ?thesis by simp
      qed
    qed
    have r1: "resolve fs1 40 ?start ns Follow = Inr (f, kd)"
      using dirs links r by (rule resolve_mono)
    have last_free: "fs_lookup ?fs (kd @ ms @ [m]) = None"
      using newfree [of "Suc (length ms)"] tree_ok_below [OF t free, of "tl ms @ [m]"] ms by simp
    have last1: "fs_lookup fs1 (kd @ ms @ [m]) = None"
    proof -
      have "\<forall>i. 0 < i \<and> i \<le> length ms \<longrightarrow> kd @ ms @ [m] \<noteq> kd @ take i ms"
      proof (intro allI impI)
        fix i assume "0 < i \<and> i \<le> length ms"
        have "length (ms @ [m]) \<noteq> length (take i ms)" by simp
        then have "ms @ [m] \<noteq> take i ms" by metis
        then show "kd @ ms @ [m] \<noteq> kd @ take i ms" by simp
      qed
      then show ?thesis using 3 last_free by simp
    qed
    have chain: "\<forall>i<length (ms @ [m]). fs_lookup fs1 (kd @ take i (ms @ [m])) = Some Dir"
    proof (intro allI impI)
      fix i assume i: "i < length (ms @ [m])"
      show "fs_lookup fs1 (kd @ take i (ms @ [m])) = Some Dir"
      proof (cases i)
        case 0
        then show ?thesis using same [of kd] d by simp
      next
        case (Suc j)
        then show ?thesis using i 2 by simp
      qed
    qed
    have "resolve fs1 f kd (ms @ [m]) No_follow = Inr (f, kd @ ms @ [m])"
      using resolve_descend [of "ms @ [m]" fs1 kd f No_follow] chain last1 m pms by simp
    then have "resolve fs1 40 ?start (ns @ ms @ [m]) No_follow = Inr (f, kd @ ms @ [m])"
      using app [of fs1] r1 by simp
    then have "os_mkdir (w\<lparr>w_fs := fs1\<rparr>) ?p
                 = Inr (w\<lparr>w_fs := fs_put (kd @ ms @ [m]) Dir fs1\<rparr>)"
      using last1 by (simp add: mk [of "w\<lparr>w_fs := fs1\<rparr>"] cong del: if_weak_cong split del: if_split)
    then have "mkdir_plain (w\<lparr>w_fs := fs1\<rparr>) ?p exist_ok
                 = Inr (w\<lparr>w_fs := fs_put (kd @ ms @ [m]) Dir fs1\<rparr>)"
      by (simp add: mkdir_plain_def)
    then have 4: "mkdir_parents w root (ns @ ms @ [m]) exist_ok
                    = (None, w\<lparr>w_fs := fs_put (kd @ ms @ [m]) Dir fs1\<rparr>)"
      using e 1 by (subst mkdir_parents.simps) (simp add: butlast_append)
    have 5: "\<forall>i. 0 < i \<and> i \<le> length (ms @ [m])
                \<longrightarrow> fs_lookup (fs_put (kd @ ms @ [m]) Dir fs1) (kd @ take i (ms @ [m])) = Some Dir"
    proof (intro allI impI)
      fix i assume i: "0 < i \<and> i \<le> length (ms @ [m])"
      show "fs_lookup (fs_put (kd @ ms @ [m]) Dir fs1) (kd @ take i (ms @ [m])) = Some Dir"
      proof (cases "i \<le> length ms")
        case True
        then show ?thesis using i 2 by (simp add: fs_lookup_put)
      next
        case False
        then have "i = Suc (length ms)" using i by simp
        then show ?thesis by (simp add: fs_lookup_put)
      qed
    qed
    have 6: "\<forall>k. (\<forall>i. 0 < i \<and> i \<le> length (ms @ [m]) \<longrightarrow> k \<noteq> kd @ take i (ms @ [m]))
                \<longrightarrow> fs_lookup (fs_put (kd @ ms @ [m]) Dir fs1) k = fs_lookup ?fs k"
    proof (intro allI impI)
      fix k
      assume a: "\<forall>i. 0 < i \<and> i \<le> length (ms @ [m]) \<longrightarrow> k \<noteq> kd @ take i (ms @ [m])"
      from a [rule_format, of "Suc (length ms)"] have k1: "k \<noteq> kd @ ms @ [m]" by simp
      have "\<forall>i. 0 < i \<and> i \<le> length ms \<longrightarrow> k \<noteq> kd @ take i ms"
      proof (intro allI impI)
        fix i assume i: "0 < i \<and> i \<le> length ms"
        then show "k \<noteq> kd @ take i ms" using a [rule_format, of i] by simp
      qed
      then have "fs_lookup fs1 k = fs_lookup ?fs k" using 3 by blast
      then show "fs_lookup (fs_put (kd @ ms @ [m]) Dir fs1) k = fs_lookup ?fs k"
        using k1 by (simp add: fs_lookup_put_other)
    qed
    show ?thesis
      using 4 5 6 by (intro exI [of _ "fs_put (kd @ ms @ [m]) Dir fs1"]) simp
  qed
qed

text \<open>The path put together from a root and names leads down a chain of directories.\<close>

lemma os_stat_chain:
  assumes root: "root = [] \<or> root = ''/'' \<or> root = ''//''"
    and cs: "\<forall>c \<in> set (ns @ ms). CHR ''/'' \<notin> set c \<and> c \<noteq> []"
    and ms: "ms \<noteq> []" "list_all proper_name ms"
    and r: "resolve fs' 40 (if root \<noteq> [] then [] else w_cwd w) ns Follow = Inr (f, kd)"
    and chain: "\<forall>i \<le> length ms. fs_lookup fs' (kd @ take i ms) = Some Dir"
  shows "os_stat (w\<lparr>w_fs := fs'\<rparr>) (path_of root (ns @ ms)) = Inr (kd @ ms, Dir)"
proof -
  let ?p = "path_of root (ns @ ms)"
  have n: "names_of ?p = ns @ ms" using names_of_path_of [OF cs root] ms(1) by simp
  have p: "?p \<noteq> []" using root cs by (rule path_of_nonempty)
  have s: "start_dir w ?p = (if root \<noteq> [] then [] else w_cwd w)"
    using root cs by (rule start_dir_path_of)
  have "resolve fs' 40 (if root \<noteq> [] then [] else w_cwd w) (ns @ ms) Follow =
          (case resolve fs' 40 (if root \<noteq> [] then [] else w_cwd w) ns Follow of
             Inl en \<Rightarrow> Inl en
           | Inr (f, k) \<Rightarrow> resolve fs' f k ms Follow)"
    using ms(1) by (intro resolve_append) simp_all
  also have "\<dots> = resolve fs' f kd ms Follow" using r by simp
  also have "\<dots> = Inr (f, kd @ ms)"
    using ms(2) chain by (intro resolve_descend) auto
  finally have "namei (w\<lparr>w_fs := fs'\<rparr>) ?p (names_of ?p) Follow = Inr (kd @ ms)"
    using n p s by (simp add: namei_def)
  then show ?thesis using chain [rule_format, of "length ms"] by (simp add: os_stat_def found_def)
qed

text \<open>A path that ends with \<open>.\<close> or \<open>..\<close> leads to a directory, so the name of a path
  that leads to a regular file is neither.\<close>

lemma resolve_last_special:
  assumes "tree_ok fs" and "resolve fs fuel at (cs @ [c]) Follow = Inr (f, k)"
    and "c = ''.'' \<or> c = ''..''"
  shows "fs_lookup fs k = Some Dir"
proof -
  have "resolve fs fuel at (cs @ [c]) Follow =
          (case resolve fs fuel at cs Follow of
             Inl en \<Rightarrow> Inl en
           | Inr (f, k) \<Rightarrow> resolve fs f k [c] Follow)"
    by (intro resolve_append) simp_all
  with assms(2) obtain f' k' where 1: "resolve fs f' k' [c] Follow = Inr (f, k)"
    by (auto split: sum.splits)
  then have d: "fs_lookup fs k' = Some Dir"
    by (auto simp: resolve.simps(2) split: option.splits node.splits)
  from 1 d assms(3) have k: "k = k' \<or> k = butlast k'"
    by (auto simp: resolve.simps(2) split: if_splits)
  show ?thesis
  proof (cases "k' = []")
    case True
    then show ?thesis using k by auto
  next
    case False
    then have "k' = butlast k' @ [last k']" by simp
    then have "fs_lookup fs (butlast k' @ [last k']) = Some Dir" using d by simp
    from tree_ok_entry(1) [OF assms(1) this] d k show ?thesis by auto
  qed
qed

lemma stat_file_name:
  assumes "tree_ok (w_fs w)" and "os_stat w (Path p) = Inr (k, File c)"
  shows "proper_name (path_name (Path p))"
proof -
  from assms(2) obtain f where
    r: "resolve (w_fs w) 40 (start_dir w (Path p)) (names_of (Path p)) Follow = Inr (f, k)"
    and l: "fs_lookup (w_fs w) k = Some (File c)"
    by (auto simp: os_stat_def found_def namei_def split: if_splits sum.splits option.splits)
  have nm: "path_name (Path p) = (if components p = [] then [] else last (components p))"
    by (simp add: path_name_def components_Path)
  show ?thesis
  proof (cases "components p = []")
    case True
    show ?thesis
    proof (cases "path_root p = []")
      case True
      with \<open>components p = []\<close> have "resolve (w_fs w) 40 (start_dir w (Path p)) ([] @ [''.'']) Follow = Inr (f, k)"
        using r by (simp add: names_of_Path)
      from resolve_last_special [OF assms(1) this] l show ?thesis by simp
    next
      case False
      moreover have "startswith p ''//'' \<Longrightarrow> startswith p ''/''"
        by (cases p) (auto simp: startswith_def)
      ultimately have "is_absolute p"
        by (auto simp: path_root_def is_absolute_def split: if_splits)
      then have "start_dir w (Path p) = []" by (simp add: start_dir_def is_absolute_Path)
      with r \<open>components p = []\<close> False have "k = []" by (simp add: names_of_Path)
      then show ?thesis using l by simp
    qed
  next
    case False
    then have n: "names_of (Path p) = butlast (components p) @ [last (components p)]"
      by (simp add: names_of_Path)
    have "last (components p) \<noteq> ''..''"
    proof
      assume "last (components p) = ''..''"
      then have "fs_lookup (w_fs w) k = Some Dir"
        using resolve_last_special [OF assms(1), of 40 "start_dir w (Path p)" "butlast (components p)" "last (components p)" f k]
          r n by simp
      then show False using l by simp
    qed
    moreover have "last (components p) \<noteq> []"
      using components_parts [of "last (components p)" p] False by simp
    ultimately show ?thesis
      using path_name_proper [of "Path p"] False by (simp add: nm)
  qed
qed

text \<open>One source, a regular file, copied into a directory where its name is free.\<close>

lemma cp_source_into_dir:
  assumes D: "os_stat w D = Inr (kD, Dir)"
    and S: "os_stat w (Path (expanduser w s)) = Inr (ks, File c)"
    and n: "proper_name (path_name (Path (expanduser w s)))"
    and free: "fs_lookup (w_fs w) (kD @ [path_name (Path (expanduser w s))]) = None"
  shows "cp_source D s w =
           (w\<lparr>w_fs := fs_put (kD @ [path_name (Path (expanduser w s))]) (File c) (w_fs w)\<rparr>, [])"
proof -
  let ?S = "Path (expanduser w s)"
  let ?n = "path_name ?S"
  let ?T = "path_div D ?n"
  have nl: "\<forall>t. fs_lookup (w_fs w) (kD @ [?n]) \<noteq> Some (Symlink t)" using free by simp
  have T: "os_stat w ?T = Inl ENOENT"
    using os_stat_below [OF D n nl] free by (simp add: found_def)
  then have 1: "\<not> is_dir w ?T" "\<not> samefile w ?S ?T"
    by (simp_all add: is_dir_def samefile_def split: sum.splits prod.splits)
  have 2: "read_file w ?S = Inr c" using S by (simp add: read_file_def)
  have p: "D \<noteq> []" using D by (rule os_stat_dir)
  have "namei w ?T (names_of ?T) Create = Inr (kD @ [?n])"
    using namei_below [OF D n, of Create] nl path_div_names(1) [OF n p] by simp
  then have 3: "write_file w ?T c = Inr (w\<lparr>w_fs := fs_put (kD @ [?n]) (File c) (w_fs w)\<rparr>)"
    using free by (simp add: write_file_def)
  have "copy2 w ?S ?T = Inr (w\<lparr>w_fs := fs_put (kD @ [?n]) (File c) (w_fs w)\<rparr>)"
    using 1 2 3 by (simp add: copy2_def copyfile_def)
  then show ?thesis by (simp add: cp_source_def)
qed

text \<open>Several sources, regular files with different names, copied into a directory where
  these names are free.\<close>

lemma cp_sources_into_dir:
  "os_stat w D = Inr (kD, Dir) \<Longrightarrow>
   \<forall>s \<in> set srcs. (\<exists>k c. os_stat w (Path (expanduser w s)) = Inr (k, File c))
      \<and> proper_name (path_name (Path (expanduser w s)))
      \<and> fs_lookup (w_fs w) (kD @ [path_name (Path (expanduser w s))]) = None \<Longrightarrow>
   distinct (map (\<lambda>s. path_name (Path (expanduser w s))) srcs) \<Longrightarrow>
   \<exists>fs'. cp_sources D srcs w = (w\<lparr>w_fs := fs'\<rparr>, [])
      \<and> (\<forall>s \<in> set srcs. \<forall>k c. os_stat w (Path (expanduser w s)) = Inr (k, File c)
            \<longrightarrow> fs_lookup fs' (kD @ [path_name (Path (expanduser w s))]) = Some (File c))
      \<and> (\<forall>k. (\<forall>s \<in> set srcs. k \<noteq> kD @ [path_name (Path (expanduser w s))])
            \<longrightarrow> fs_lookup fs' k = fs_lookup (w_fs w) k)"
proof (induction srcs arbitrary: w)
  case Nil
  show ?case by (intro exI [of _ "w_fs w"]) simp
next
  case (Cons s srcs)
  let ?n = "\<lambda>s. path_name (Path (expanduser w s))"
  let ?S = "\<lambda>s. Path (expanduser w s)"
  let ?fs = "w_fs w"
  from Cons.prems(2) obtain ks c where S: "os_stat w (?S s) = Inr (ks, File c)"
    and n: "proper_name (?n s)" and free: "fs_lookup ?fs (kD @ [?n s]) = None"
    by auto
  let ?fs1 = "fs_put (kD @ [?n s]) (File c) ?fs"
  let ?w1 = "w\<lparr>w_fs := ?fs1\<rparr>"
  have step: "cp_source D s w = (?w1, [])"
    using Cons.prems(1) S n free by (rule cp_source_into_dir)
  have l1: "fs_lookup ?fs1 k = (if k = kD @ [?n s] then Some (File c) else fs_lookup ?fs k)" for k
    by (simp add: fs_lookup_put)
  have dirs: "\<forall>k. fs_lookup ?fs k = Some Dir \<longrightarrow> fs_lookup ?fs1 k = Some Dir"
    using free by (auto simp: l1)
  have links: "\<forall>k t. fs_lookup ?fs1 k = Some (Symlink t) \<longleftrightarrow> fs_lookup ?fs k = Some (Symlink t)"
    using free by (auto simp: l1)
  have fresh: "?n s' \<noteq> ?n s" if "s' \<in> set srcs" for s'
  proof -
    have "?n s \<notin> ?n ` set srcs" using Cons.prems(3) by simp
    then show ?thesis using that by (metis imageI)
  qed
  have keep: "os_stat ?w1 p = Inr (k, e)" if "os_stat w p = Inr (k, e)" for p k e
  proof -
    from that have "fs_lookup ?fs k = Some e"
      by (auto simp: os_stat_def found_def split: sum.splits option.splits)
    then have "fs_lookup ?fs1 k = Some e" using free by (auto simp: l1)
    with dirs links that show ?thesis by (rule os_stat_mono)
  qed
  have D1: "os_stat ?w1 D = Inr (kD, Dir)" using Cons.prems(1) by (rule keep)
  have rest: "\<forall>s' \<in> set srcs. (\<exists>k c. os_stat ?w1 (Path (expanduser ?w1 s')) = Inr (k, File c))
      \<and> proper_name (path_name (Path (expanduser ?w1 s')))
      \<and> fs_lookup (w_fs ?w1) (kD @ [path_name (Path (expanduser ?w1 s'))]) = None"
  proof
    fix s' assume s': "s' \<in> set srcs"
    with Cons.prems(2) obtain k' c' where "os_stat w (?S s') = Inr (k', File c')"
      and n': "proper_name (?n s')" and f': "fs_lookup ?fs (kD @ [?n s']) = None"
      by auto
    then have a: "os_stat ?w1 (?S s') = Inr (k', File c')" using keep by blast
    have "?n s' \<noteq> ?n s" using s' by (rule fresh)
    then have "fs_lookup ?fs1 (kD @ [?n s']) = None" using f' by (simp add: l1)
    then show "(\<exists>k c. os_stat ?w1 (Path (expanduser ?w1 s')) = Inr (k, File c))
      \<and> proper_name (path_name (Path (expanduser ?w1 s')))
      \<and> fs_lookup (w_fs ?w1) (kD @ [path_name (Path (expanduser ?w1 s'))]) = None"
      using a n' by simp
  qed
  have dist: "distinct (map (\<lambda>s. path_name (Path (expanduser ?w1 s))) srcs)"
    using Cons.prems(3) by simp
  from Cons.IH [OF D1 rest dist] obtain fs2 where
    1: "cp_sources D srcs ?w1 = (w\<lparr>w_fs := fs2\<rparr>, [])"
    and 2: "\<forall>s' \<in> set srcs. \<forall>k c. os_stat ?w1 (?S s') = Inr (k, File c)
              \<longrightarrow> fs_lookup fs2 (kD @ [?n s']) = Some (File c)"
    and 3: "\<forall>k. (\<forall>s' \<in> set srcs. k \<noteq> kD @ [?n s']) \<longrightarrow> fs_lookup fs2 k = fs_lookup ?fs1 k"
    by auto
  have 4: "cp_sources D (s # srcs) w = (w\<lparr>w_fs := fs2\<rparr>, [])" using step 1 by simp
  have 5: "\<forall>s' \<in> set (s # srcs). \<forall>k c'. os_stat w (?S s') = Inr (k, File c')
              \<longrightarrow> fs_lookup fs2 (kD @ [?n s']) = Some (File c')"
  proof (intro ballI allI impI)
    fix s' k c' assume s': "s' \<in> set (s # srcs)" and st: "os_stat w (?S s') = Inr (k, File c')"
    show "fs_lookup fs2 (kD @ [?n s']) = Some (File c')"
    proof (cases "s' \<in> set srcs")
      case True
      then show ?thesis using 2 keep [OF st] by blast
    next
      case False
      then have e: "s' = s" using s' by simp
      then have c: "c' = c" using st S by simp
      have "\<forall>x \<in> set srcs. kD @ [?n s] \<noteq> kD @ [?n x]"
      proof
        fix x assume "x \<in> set srcs"
        from fresh [OF this] have "?n s \<noteq> ?n x" by (rule not_sym)
        then show "kD @ [?n s] \<noteq> kD @ [?n x]" by simp
      qed
      then have "fs_lookup fs2 (kD @ [?n s]) = fs_lookup ?fs1 (kD @ [?n s])" using 3 by blast
      then show ?thesis using e c by (simp add: l1)
    qed
  qed
  have 6: "\<forall>k. (\<forall>s' \<in> set (s # srcs). k \<noteq> kD @ [?n s']) \<longrightarrow> fs_lookup fs2 k = fs_lookup ?fs k"
  proof (intro allI impI)
    fix k assume a: "\<forall>s' \<in> set (s # srcs). k \<noteq> kD @ [?n s']"
    then have "fs_lookup fs2 k = fs_lookup ?fs1 k" using 3 by simp
    then show "fs_lookup fs2 k = fs_lookup ?fs k" using a by (simp add: l1)
  qed
  show ?case using 4 5 6 by (intro exI [of _ fs2]) simp
qed

text \<open>After new directories were made below a free name, every entry that was there is
  still there, and the links are the same.\<close>

lemma new_dirs_extend:
  assumes "tree_ok fs" and "fs_lookup fs (kd @ [hd ms]) = None" and "ms \<noteq> []"
    and "\<forall>i. 0 < i \<and> i \<le> length ms \<longrightarrow> fs_lookup fs1 (kd @ take i ms) = Some Dir"
    and "\<forall>k. (\<forall>i. 0 < i \<and> i \<le> length ms \<longrightarrow> k \<noteq> kd @ take i ms)
           \<longrightarrow> fs_lookup fs1 k = fs_lookup fs k"
  shows "\<forall>k. fs_lookup fs k \<noteq> None \<longrightarrow> fs_lookup fs1 k = fs_lookup fs k"
    and "\<forall>k t. fs_lookup fs1 k = Some (Symlink t) \<longleftrightarrow> fs_lookup fs k = Some (Symlink t)"
proof -
  have newfree: "fs_lookup fs (kd @ take i ms) = None" if "0 < i" for i
    using tree_ok_below [OF assms(1,2), of "take (i - 1) (tl ms)"]
      take_below_first [OF assms(3) that, of kd]
    by simp
  show "\<forall>k. fs_lookup fs k \<noteq> None \<longrightarrow> fs_lookup fs1 k = fs_lookup fs k"
  proof (intro allI impI)
    fix k assume "fs_lookup fs k \<noteq> None"
    then have "\<forall>i. 0 < i \<and> i \<le> length ms \<longrightarrow> k \<noteq> kd @ take i ms"
      using newfree by auto
    then show "fs_lookup fs1 k = fs_lookup fs k" using assms(5) by blast
  qed
  show "\<forall>k t. fs_lookup fs1 k = Some (Symlink t) \<longleftrightarrow> fs_lookup fs k = Some (Symlink t)"
  proof (intro allI)
    fix k t
    show "fs_lookup fs1 k = Some (Symlink t) \<longleftrightarrow> fs_lookup fs k = Some (Symlink t)"
    proof (cases "\<exists>i. 0 < i \<and> i \<le> length ms \<and> k = kd @ take i ms")
      case True
      then show ?thesis using assms(4) newfree by auto
    next
      case False
      then have "fs_lookup fs1 k = fs_lookup fs k" using assms(5) by blast
      then show ?thesis by simp
    qed
  qed
qed

text \<open>
  Claim C5. \<open>cp\<close> with more than one source and a destination that is not there yet
  makes the destination directory and puts the text of each source file into it under
  the last name of the source, provided the sources have different last names: nothing
  is printed and nothing else in the file system changes. The sources are regular files
  (or links to them). The destination path is a path \<open>ns\<close> to a directory that is there,
  followed by one or more names \<open>ms\<close>, the first of which is free in that directory:
  every directory of the chain \<open>ms\<close> is made.
\<close>

theorem cp_many_into_new_directory:
  assumes tree: "tree_ok (w_fs w)"
    and many: "1 < length srcs"
    and dest: "components (expanduser w dest) = ns @ ms" "ms \<noteq> []" "''..'' \<notin> set ms"
    and base: "os_stat w (path_of (path_root (expanduser w dest)) ns) = Inr (kd, Dir)"
    and free: "fs_lookup (w_fs w) (kd @ [hd ms]) = None"
    and files: "\<forall>s \<in> set srcs. \<exists>k c. os_stat w (Path (expanduser w s)) = Inr (k, File c)"
    and dist: "distinct (map (\<lambda>s. path_name (Path (expanduser w s))) srcs)"
  shows "\<exists>fs'. cmd_cp lib (srcs @ [dest]) w = (w\<lparr>w_fs := fs'\<rparr>, [])
      \<and> os_stat (w\<lparr>w_fs := fs'\<rparr>) (Path (expanduser w dest)) = Inr (kd @ ms, Dir)
      \<and> (\<forall>i. 0 < i \<and> i \<le> length ms \<longrightarrow> fs_lookup fs' (kd @ take i ms) = Some Dir)
      \<and> (\<forall>s \<in> set srcs. \<exists>c. read_file w (Path (expanduser w s)) = Inr c
            \<and> read_file (w\<lparr>w_fs := fs'\<rparr>)
                 (path_div (Path (expanduser w dest)) (path_name (Path (expanduser w s)))) = Inr c
            \<and> fs_lookup fs' (kd @ ms @ [path_name (Path (expanduser w s))]) = Some (File c))
      \<and> (\<forall>k. (\<forall>i. 0 < i \<and> i \<le> length ms \<longrightarrow> k \<noteq> kd @ take i ms)
             \<and> k \<notin> (\<lambda>s. kd @ ms @ [path_name (Path (expanduser w s))]) ` set srcs
            \<longrightarrow> fs_lookup fs' k = fs_lookup (w_fs w) k)"
proof -
  let ?E = "expanduser w dest"
  let ?D = "Path ?E"
  let ?root = "path_root ?E"
  let ?S = "\<lambda>s. Path (expanduser w s)"
  let ?n = "\<lambda>s. path_name (Path (expanduser w s))"
  let ?fs = "w_fs w"
  let ?start = "if ?root \<noteq> [] then [] else w_cwd w"
  have root: "?root = [] \<or> ?root = ''/'' \<or> ?root = ''//''" by (rule path_root_cases)
  have cs3: "\<forall>c \<in> set (ns @ ms). CHR ''/'' \<notin> set c \<and> c \<noteq> [] \<and> c \<noteq> ''.''"
    using components_parts [of _ ?E] dest(1) by simp
  then have cs: "\<forall>c \<in> set (ns @ ms). CHR ''/'' \<notin> set c \<and> c \<noteq> []" by blast
  have cns3: "\<forall>c \<in> set ns. CHR ''/'' \<notin> set c \<and> c \<noteq> [] \<and> c \<noteq> ''.''" using cs3 by simp
  then have cns: "\<forall>c \<in> set ns. CHR ''/'' \<notin> set c \<and> c \<noteq> []" by blast
  have pms: "list_all proper_name ms"
    using cs3 dest(3) by (auto simp: list_all_iff proper_name_def)
  have D: "?D = path_of ?root (ns @ ms)" using path_of_parts [of ?E] dest(1) by simp
  have Droot: "path_root ?D = ?root" by (rule path_root_Path)
  have Dcomp: "components ?D = ns @ ms" using dest(1) by (simp add: components_Path)
  from base obtain f where "path_of ?root ns \<noteq> []" and d: "fs_lookup ?fs kd = Some Dir"
    and r0: "resolve ?fs 40 (start_dir w (path_of ?root ns)) (components (path_of ?root ns)) Follow
               = Inr (f, kd)"
    by (rule os_stat_dir)
  have r: "resolve ?fs 40 ?start ns Follow = Inr (f, kd)"
    using r0 components_path_of [OF root cns3] start_dir_path_of [OF root cns, of w] by simp
  from mkdir_parents_new [OF tree root cns r d dest(2) pms free, of True] obtain fs1 where
    m1: "mkdir_parents w ?root (ns @ ms) True = (None, w\<lparr>w_fs := fs1\<rparr>)"
    and m2: "\<forall>i. 0 < i \<and> i \<le> length ms \<longrightarrow> fs_lookup fs1 (kd @ take i ms) = Some Dir"
    and m3: "\<forall>k. (\<forall>i. 0 < i \<and> i \<le> length ms \<longrightarrow> k \<noteq> kd @ take i ms)
               \<longrightarrow> fs_lookup fs1 k = fs_lookup ?fs k"
    by blast
  let ?w1 = "w\<lparr>w_fs := fs1\<rparr>"
  have mk: "Path_mkdir w ?D True = (None, ?w1)"
    using m1 by (simp add: Path_mkdir_def Droot Dcomp)
  note ext = new_dirs_extend [OF tree free dest(2) m2 m3]
  have dirs1: "\<forall>k. fs_lookup ?fs k = Some Dir \<longrightarrow> fs_lookup fs1 k = Some Dir"
    using ext(1) by auto
  have r1: "resolve fs1 40 ?start ns Follow = Inr (f, kd)"
    using dirs1 ext(2) r by (rule resolve_mono)
  have chain1: "\<forall>i \<le> length ms. fs_lookup fs1 (kd @ take i ms) = Some Dir"
  proof (intro allI impI)
    fix i assume i: "i \<le> length ms"
    show "fs_lookup fs1 (kd @ take i ms) = Some Dir"
    proof (cases i)
      case 0
      then show ?thesis using dirs1 d by simp
    next
      case (Suc j)
      then show ?thesis using i m2 by simp
    qed
  qed
  have D1: "os_stat ?w1 ?D = Inr (kd @ ms, Dir)"
    unfolding D using root cs dest(2) pms r1 chain1 by (rule os_stat_chain)
  have keep1: "os_stat ?w1 p = Inr (k, e)" if "os_stat w p = Inr (k, e)" for p k e
  proof -
    from that have "fs_lookup ?fs k = Some e"
      by (auto simp: os_stat_def found_def split: sum.splits option.splits)
    then have "fs_lookup fs1 k = Some e" using ext(1) by auto
    with dirs1 ext(2) that show ?thesis by (rule os_stat_mono)
  qed
  have names: "proper_name (?n s)" if "s \<in> set srcs" for s
  proof -
    from files that obtain k c where "os_stat w (?S s) = Inr (k, File c)" by blast
    with tree show ?thesis by (rule stat_file_name)
  qed
  have free0: "fs_lookup ?fs (kd @ ms @ [n]) = None" for n
    using tree_ok_below [OF tree free, of "tl ms @ [n]"] dest(2) by (cases ms) simp_all
  have free1: "fs_lookup fs1 (kd @ ms @ [n]) = None" for n
  proof -
    have "\<forall>i. 0 < i \<and> i \<le> length ms \<longrightarrow> kd @ ms @ [n] \<noteq> kd @ take i ms"
    proof (intro allI impI)
      fix i assume "0 < i \<and> i \<le> length ms"
      have "length (ms @ [n]) \<noteq> length (take i ms)" by simp
      then have "ms @ [n] \<noteq> take i ms" by metis
      then show "kd @ ms @ [n] \<noteq> kd @ take i ms" by simp
    qed
    then show ?thesis using m3 free0 by simp
  qed
  have pre: "\<forall>s \<in> set srcs. (\<exists>k c. os_stat ?w1 (Path (expanduser ?w1 s)) = Inr (k, File c))
      \<and> proper_name (path_name (Path (expanduser ?w1 s)))
      \<and> fs_lookup (w_fs ?w1) ((kd @ ms) @ [path_name (Path (expanduser ?w1 s))]) = None"
  proof
    fix s assume s: "s \<in> set srcs"
    with files obtain k c where "os_stat w (?S s) = Inr (k, File c)" by blast
    then have "os_stat ?w1 (?S s) = Inr (k, File c)" by (rule keep1)
    then show "(\<exists>k c. os_stat ?w1 (Path (expanduser ?w1 s)) = Inr (k, File c))
      \<and> proper_name (path_name (Path (expanduser ?w1 s)))
      \<and> fs_lookup (w_fs ?w1) ((kd @ ms) @ [path_name (Path (expanduser ?w1 s))]) = None"
      using names [OF s] free1 by simp
  qed
  have dist1: "distinct (map (\<lambda>s. path_name (Path (expanduser ?w1 s))) srcs)"
    using dist by simp
  from cp_sources_into_dir [OF D1 pre dist1] obtain fs2 where
    c1: "cp_sources ?D srcs ?w1 = (w\<lparr>w_fs := fs2\<rparr>, [])"
    and c2: "\<forall>s \<in> set srcs. \<forall>k c. os_stat ?w1 (?S s) = Inr (k, File c)
               \<longrightarrow> fs_lookup fs2 (kd @ ms @ [?n s]) = Some (File c)"
    and c3: "\<forall>k. (\<forall>s \<in> set srcs. k \<noteq> kd @ ms @ [?n s]) \<longrightarrow> fs_lookup fs2 k = fs_lookup fs1 k"
    by auto
  let ?w2 = "w\<lparr>w_fs := fs2\<rparr>"
  have res: "cmd_cp lib (srcs @ [dest]) w = (?w2, [])"
    using many mk c1 by (auto simp: cmd_cp_def Let_def)
  have placed: "fs_lookup fs2 (kd @ ms @ [?n s]) = Some (File c)"
    if "s \<in> set srcs" and "os_stat w (?S s) = Inr (k, File c)" for s k c
    using c2 that(1) keep1 [OF that(2)] by blast
  have new2: "fs_lookup fs1 k = None \<and> (\<exists>c. fs_lookup fs2 k = Some (File c))"
    if "\<not> (\<forall>s \<in> set srcs. k \<noteq> kd @ ms @ [?n s])" for k
  proof -
    from that obtain s where s: "s \<in> set srcs" and k: "k = kd @ ms @ [?n s]" by blast
    from files s obtain k' c where "os_stat w (?S s) = Inr (k', File c)" by blast
    from placed [OF s this] free1 [of "?n s"] k show ?thesis by simp
  qed
  have dirs2: "\<forall>k. fs_lookup fs1 k = Some Dir \<longrightarrow> fs_lookup fs2 k = Some Dir"
    using new2 c3 by (metis option.distinct(1))
  have links2: "\<forall>k t. fs_lookup fs2 k = Some (Symlink t) \<longleftrightarrow> fs_lookup fs1 k = Some (Symlink t)"
    using new2 c3 by (metis node.distinct option.distinct(1) option.inject)
  have top: "fs_lookup fs2 (kd @ ms) = Some Dir"
    using dirs2 chain1 [rule_format, of "length ms"] by simp
  have "os_stat (?w1\<lparr>w_fs := fs2\<rparr>) ?D = Inr (kd @ ms, Dir)"
    using os_stat_mono [of ?w1 fs2 ?D "kd @ ms" Dir Dir] dirs2 links2 D1 top by simp
  then have D2: "os_stat ?w2 ?D = Inr (kd @ ms, Dir)" by simp
  have made: "\<forall>i. 0 < i \<and> i \<le> length ms \<longrightarrow> fs_lookup fs2 (kd @ take i ms) = Some Dir"
    using dirs2 m2 by blast
  have each: "\<forall>s \<in> set srcs. \<exists>c. read_file w (?S s) = Inr c
            \<and> read_file ?w2 (path_div ?D (?n s)) = Inr c
            \<and> fs_lookup fs2 (kd @ ms @ [?n s]) = Some (File c)"
  proof
    fix s assume s: "s \<in> set srcs"
    with files obtain k c where st: "os_stat w (?S s) = Inr (k, File c)" by blast
    then have r0: "read_file w (?S s) = Inr c" by (simp add: read_file_def)
    have l: "fs_lookup fs2 (kd @ ms @ [?n s]) = Some (File c)" using s st by (rule placed)
    then have nl: "\<forall>t. fs_lookup (w_fs ?w2) ((kd @ ms) @ [?n s]) \<noteq> Some (Symlink t)" by simp
    have "os_stat ?w2 (path_div ?D (?n s)) = Inr ((kd @ ms) @ [?n s], File c)"
      using os_stat_below [OF D2 names [OF s] nl] l by (simp add: found_def)
    then have "read_file ?w2 (path_div ?D (?n s)) = Inr c" by (simp add: read_file_def)
    with r0 l show "\<exists>c. read_file w (?S s) = Inr c
            \<and> read_file ?w2 (path_div ?D (?n s)) = Inr c
            \<and> fs_lookup fs2 (kd @ ms @ [?n s]) = Some (File c)" by blast
  qed
  have frame: "\<forall>k. (\<forall>i. 0 < i \<and> i \<le> length ms \<longrightarrow> k \<noteq> kd @ take i ms)
             \<and> k \<notin> (\<lambda>s. kd @ ms @ [?n s]) ` set srcs
            \<longrightarrow> fs_lookup fs2 k = fs_lookup ?fs k"
  proof (intro allI impI)
    fix k
    assume a: "(\<forall>i. 0 < i \<and> i \<le> length ms \<longrightarrow> k \<noteq> kd @ take i ms)
             \<and> k \<notin> (\<lambda>s. kd @ ms @ [?n s]) ` set srcs"
    then have "\<forall>s \<in> set srcs. k \<noteq> kd @ ms @ [?n s]" by blast
    then have "fs_lookup fs2 k = fs_lookup fs1 k" using c3 by blast
    then show "fs_lookup fs2 k = fs_lookup ?fs k" using a m3 by simp
  qed
  show ?thesis using res D2 made each frame by blast
qed

theorem cp_many_into_new_directory_witness:
  "tree_ok (w_fs example_world)
   \<and> os_stat example_world ''.'' = Inr ([''home'', ''u''], Dir)
   \<and> fs_lookup (w_fs example_world) [''home'', ''u'', ''new''] = None
   \<and> read_file example_world ''existing.txt'' = Inr ''hello''
   \<and> read_file example_world ''docs/a.txt'' = Inr ''A''
   \<and> (\<exists>fs'. cmd_cp example_lib [''existing.txt'', ''docs/a.txt'', ''new/deep''] example_world
                = (example_world\<lparr>w_fs := fs'\<rparr>, [])
          \<and> os_stat (example_world\<lparr>w_fs := fs'\<rparr>) ''new/deep''
              = Inr ([''home'', ''u'', ''new'', ''deep''], Dir)
          \<and> fs_lookup fs' [''home'', ''u'', ''new''] = Some Dir
          \<and> read_file (example_world\<lparr>w_fs := fs'\<rparr>) ''new/deep/existing.txt'' = Inr ''hello''
          \<and> read_file (example_world\<lparr>w_fs := fs'\<rparr>) ''new/deep/a.txt'' = Inr ''A'')"
proof -
  let ?w = example_world
  let ?srcs = "[''existing.txt'', ''docs/a.txt'']"
  have 1: "tree_ok (w_fs ?w)" by code_simp
  have 2: "1 < length ?srcs" by simp
  have e: "expanduser ?w ''new/deep'' = ''new/deep''" by code_simp
  have 3: "components (expanduser ?w ''new/deep'') = [] @ [''new'', ''deep'']" by code_simp
  have 4: "[''new'', ''deep''] \<noteq> []" by simp
  have 5: "''..'' \<notin> set [''new'', ''deep'']" by simp
  have b: "path_of (path_root (expanduser ?w ''new/deep'')) [] = ''.''" by code_simp
  have s: "os_stat ?w ''.'' = Inr ([''home'', ''u''], Dir)" by code_simp
  have 6: "os_stat ?w (path_of (path_root (expanduser ?w ''new/deep'')) []) = Inr ([''home'', ''u''], Dir)"
    unfolding b by (rule s)
  have f: "fs_lookup (w_fs ?w) [''home'', ''u'', ''new''] = None" by code_simp
  then have 7: "fs_lookup (w_fs ?w) ([''home'', ''u''] @ [hd [''new'', ''deep'']]) = None" by simp
  have s1: "Path (expanduser ?w ''existing.txt'') = ''existing.txt''" by code_simp
  have s2: "Path (expanduser ?w ''docs/a.txt'') = ''docs/a.txt''" by code_simp
  have t1: "os_stat ?w ''existing.txt'' = Inr ([''home'', ''u'', ''existing.txt''], File ''hello'')"
    by code_simp
  have t2: "os_stat ?w ''docs/a.txt'' = Inr ([''home'', ''u'', ''docs'', ''a.txt''], File ''A'')"
    by code_simp
  have 8: "\<forall>s \<in> set ?srcs. \<exists>k c. os_stat ?w (Path (expanduser ?w s)) = Inr (k, File c)"
    by (simp add: s1 s2 t1 t2)
  have n1: "path_name ''existing.txt'' = ''existing.txt''" by code_simp
  have n2: "path_name ''docs/a.txt'' = ''a.txt''" by code_simp
  have 9: "distinct (map (\<lambda>s. path_name (Path (expanduser ?w s))) ?srcs)"
    by (simp add: s1 s2 n1 n2)
  have d: "Path (expanduser ?w ''new/deep'') = ''new/deep''" by code_simp
  have p1: "path_div ''new/deep'' ''existing.txt'' = ''new/deep/existing.txt''" by code_simp
  have p2: "path_div ''new/deep'' ''a.txt'' = ''new/deep/a.txt''" by code_simp
  have r1: "read_file ?w ''existing.txt'' = Inr ''hello''" by code_simp
  have r2: "read_file ?w ''docs/a.txt'' = Inr ''A''" by code_simp
  from cp_many_into_new_directory [OF 1 2 3 4 5 6 7 8 9, of example_lib]
  obtain fs' where
    a: "cmd_cp example_lib (?srcs @ [''new/deep'']) ?w = (?w\<lparr>w_fs := fs'\<rparr>, [])"
    and b: "os_stat (?w\<lparr>w_fs := fs'\<rparr>) (Path (expanduser ?w ''new/deep''))
              = Inr ([''home'', ''u''] @ [''new'', ''deep''], Dir)"
    and c: "\<forall>i. 0 < i \<and> i \<le> length [''new'', ''deep'']
              \<longrightarrow> fs_lookup fs' ([''home'', ''u''] @ take i [''new'', ''deep'']) = Some Dir"
    and g: "\<forall>s \<in> set ?srcs. \<exists>c. read_file ?w (Path (expanduser ?w s)) = Inr c
            \<and> read_file (?w\<lparr>w_fs := fs'\<rparr>)
                 (path_div (Path (expanduser ?w ''new/deep'')) (path_name (Path (expanduser ?w s)))) = Inr c
            \<and> fs_lookup fs' ([''home'', ''u''] @ [''new'', ''deep''] @ [path_name (Path (expanduser ?w s))])
                = Some (File c)"
    by blast
  from c [rule_format, of 1] have c': "fs_lookup fs' [''home'', ''u'', ''new''] = Some Dir" by simp
  from g have g1: "read_file (?w\<lparr>w_fs := fs'\<rparr>) ''new/deep/existing.txt'' = Inr ''hello''"
    and g2: "read_file (?w\<lparr>w_fs := fs'\<rparr>) ''new/deep/a.txt'' = Inr ''A''"
    by (simp_all add: s1 s2 n1 n2 d p1 p2 r1 r2)
  show ?thesis
    using 1 s f r1 r2 a b c' g1 g2 by (intro conjI exI [of _ fs']) (simp_all add: d)
qed

text \<open>Two sources with the same last name: the second copy takes the place of the first,
  and the destination holds one file, with the text of the second source.\<close>

theorem cp_same_base_name_counterexample:
  "read_file example_world ''docs/a.txt'' = Inr ''A''
   \<and> read_file example_world ''docs/sub/a.txt'' = Inr ''B''
   \<and> os_lstat example_world ''destdir'' = Inl ENOENT
   \<and> snd (cmd_cp example_lib [''docs/a.txt'', ''docs/sub/a.txt'', ''destdir''] example_world) = []
   \<and> os_listdir (fst (cmd_cp example_lib [''docs/a.txt'', ''docs/sub/a.txt'', ''destdir''] example_world))
        ''destdir'' = Inr [''a.txt'']
   \<and> read_file (fst (cmd_cp example_lib [''docs/a.txt'', ''docs/sub/a.txt'', ''destdir''] example_world))
        ''destdir/a.txt'' = Inr ''B''"
  by code_simp

section \<open>Properties of \<open>mv\<close>\<close>

lemma path_names_parts: "c \<in> set (path_names p) \<Longrightarrow> CHR ''/'' \<notin> set c \<and> c \<noteq> []"
  using str_split_parts [of c "CHR ''/''" p] by (auto simp: path_names_def)

text \<open>\<open>os.rename\<close> succeeds only for a source that \<open>os.lstat\<close> finds.\<close>

lemma os_rename_source:
  assumes "os_rename w s d = Inr w'"
  shows "\<exists>r. os_lstat w s = Inr r"
proof -
  let ?fs = "w_fs w"
  let ?c = "last (path_names s)"
  from assms obtain sp where pd: "parent_dir w s = Inr sp"
    by (auto simp: os_rename_def split: sum.splits)
  from assms pd have ns: "\<not> special_last s"
    by (auto simp: os_rename_def split: sum.splits if_splits)
  from assms pd ns obtain sn where sn: "fs_lookup ?fs (sp @ [?c]) = Some sn"
    by (auto simp: os_rename_def Let_def split: sum.splits if_splits option.splits)
  from assms pd ns sn have ts: "sn = Dir \<or> \<not> trailing_slash s"
    by (auto simp: os_rename_def Let_def split: sum.splits if_splits)
  from pd obtain f where p: "s \<noteq> []" and d: "fs_lookup ?fs sp = Some Dir"
    and r: "resolve ?fs 40 (start_dir w s) (butlast (path_names s)) Follow = Inr (f, sp)"
    by (auto simp: parent_dir_def namei_def split: sum.splits option.splits node.splits if_splits)
  have ne: "path_names s \<noteq> []" using ns by (simp add: special_last_def)
  then have "?c \<in> set (path_names s)" by simp
  then have c: "proper_name ?c"
    using path_names_parts [of ?c s] ns by (simp add: proper_name_def special_last_def)
  have n: "names_of s = butlast (path_names s) @ (?c # (if trailing_slash s then [[]] else []))"
    using ne by (simp add: names_of_def)
  have "resolve ?fs 40 (start_dir w s) (names_of s) No_follow =
          (case resolve ?fs 40 (start_dir w s) (butlast (path_names s)) Follow of
             Inl en \<Rightarrow> Inl en
           | Inr (f, k) \<Rightarrow> resolve ?fs f k (?c # (if trailing_slash s then [[]] else [])) No_follow)"
    unfolding n by (rule resolve_append) simp_all
  also have "\<dots> = resolve ?fs f sp (?c # (if trailing_slash s then [[]] else [])) No_follow"
    using r by simp
  also have "\<dots> = Inr (f, sp @ [?c])"
  proof (cases "trailing_slash s")
    case False
    then show ?thesis using resolve_name [OF d c, of No_follow f] by simp
  next
    case True
    then have "sn = Dir" using ts by simp
    then show ?thesis using True d c sn
      by (simp add: resolve.simps(2) proper_name_def)
  qed
  finally show ?thesis using p sn by (simp add: os_lstat_def namei_def found_def)
qed

text \<open>
  Claim C3, on the code. \<open>mv\<close> hands a source to \<open>shutil.move\<close> as it was typed: when
  the source as typed names nothing (and the destination is not a directory), \<open>mv\<close>
  fails with the error of the lookup, \<open>No such file or directory\<close> when the name is not
  there, and changes nothing, also when the source with \<open>~\<close> expanded is a file. In the
  example \<open>mv ~/existing.txt moved.txt\<close> fails, where \<open>cp ~/existing.txt moved.txt\<close>
  copies the file.
\<close>

theorem mv_source_not_expanded:
  assumes "os_lstat w s = Inl en"
    and "\<not> is_dir w (Path (expanduser w dest))"
  shows "cmd_mv lib [s, dest] w = (w, ''mv: '' @ s @ '': '' @ exc_str (OSError en s))"
proof -
  let ?D = "Path (expanduser w dest)"
  have st: "os_stat w s = Inl en" using assms(1) by (rule os_stat_missing)
  have "\<nexists>w'. os_rename w s ?D = Inr w'"
    using os_rename_source [of w s ?D] assms(1) by auto
  then obtain e where ren: "os_rename w s ?D = Inl e" by (cases "os_rename w s ?D") auto
  have nl: "\<not> is_symlink w s" using assms(1) by (simp add: is_symlink_def)
  have nd: "\<not> is_dir w s" using st by (simp add: is_dir_def)
  have rd: "read_file w s = Inl (OSError en s)" using st by (simp add: read_file_def)
  have sf: "\<not> samefile w s ?D" using st by (simp add: samefile_def)
  have cp: "copy2 w s ?D = Inl (OSError en s)"
    using assms(2) sf rd by (simp add: copy2_def copyfile_def Let_def)
  have "move_to lib w s ?D ?D = (Some (OSError en s), w)"
    using ren nl nd cp by (simp add: move_to_def and_then_def one_step_def)
  then have "shutil_move lib w s ?D = (Some (OSError en s), w)"
    using assms(2) by (simp add: shutil_move_def)
  then have "mv_source lib ?D s w = (w, [''mv: '' @ s @ '': '' @ exc_str (OSError en s)])"
    by (simp add: mv_source_def)
  then show ?thesis by (simp add: cmd_mv_def Let_def)
qed

theorem mv_source_not_expanded_witness:
  "os_lstat example_world ''~/existing.txt'' = Inl ENOENT
   \<and> \<not> is_dir example_world (Path (expanduser example_world ''moved.txt''))
   \<and> read_file example_world (Path (expanduser example_world ''~/existing.txt'')) = Inr ''hello''
   \<and> cmd_mv example_lib [''~/existing.txt'', ''moved.txt''] example_world
        = (example_world,
           ''mv: ~/existing.txt: [Errno 2] No such file or directory: '' @ [squote] @ ''~/existing.txt'' @ [squote])
   \<and> read_file (fst (cmd_cp example_lib [''~/existing.txt'', ''moved.txt''] example_world)) ''moved.txt''
        = Inr ''hello''
   \<and> snd (cmd_cp example_lib [''~/existing.txt'', ''moved.txt''] example_world) = []"
proof -
  have 1: "os_lstat example_world ''~/existing.txt'' = Inl ENOENT" by code_simp
  have 2: "\<not> is_dir example_world (Path (expanduser example_world ''moved.txt''))" by code_simp
  have 3: "read_file example_world (Path (expanduser example_world ''~/existing.txt'')) = Inr ''hello''"
    by code_simp
  have 4: "read_file (fst (cmd_cp example_lib [''~/existing.txt'', ''moved.txt''] example_world)) ''moved.txt''
        = Inr ''hello''"
    by code_simp
  have 5: "snd (cmd_cp example_lib [''~/existing.txt'', ''moved.txt''] example_world) = []"
    by code_simp
  have e: "exc_str (OSError ENOENT ''~/existing.txt'')
             = ''[Errno 2] No such file or directory: '' @ [squote] @ ''~/existing.txt'' @ [squote]"
    by code_simp
  from mv_source_not_expanded [OF 1 2, of example_lib] 1 2 3 4 5 show ?thesis
    unfolding e by simp
qed

section \<open>Properties of the history\<close>

lemma CR_not_LF [simp]: "CR \<noteq> LF" "LF \<noteq> CR"
  by (simp_all add: CR_def LF_def)

lemma universal_newlines_plain: "CR \<notin> set l \<Longrightarrow> universal_newlines l = l"
  by (induction l rule: universal_newlines.induct) auto

lemma universal_newlines_append:
  "a = [] \<or> last a \<noteq> CR \<Longrightarrow> universal_newlines (a @ b) = universal_newlines a @ universal_newlines b"
proof (induction a rule: universal_newlines.induct)
  case 1
  show ?case by simp
next
  case (2 c)
  then have c: "c \<noteq> CR" by simp
  show ?case using c by (cases b) auto
next
  case (3 c d cs)
  then show ?case by (auto split: if_splits)
qed

lemma universal_newlines_last:
  "a \<noteq> [] \<Longrightarrow> last a = LF \<Longrightarrow> universal_newlines a \<noteq> [] \<and> last (universal_newlines a) = LF"
proof (induction a rule: universal_newlines.induct)
  case 1
  then show ?case by simp
next
  case (2 c)
  then show ?case by simp
next
  case (3 c d cs)
  then show ?case by (cases cs) (auto split: if_splits)
qed

lemma readlines_acc_line: "LF \<notin> set l \<Longrightarrow> readlines_acc cur (l @ [LF]) = [cur @ l @ [LF]]"
  by (induction l arbitrary: cur) auto

lemma readlines_acc_append:
  "a \<noteq> [] \<Longrightarrow> last a = LF \<Longrightarrow> readlines_acc cur (a @ b) = readlines_acc cur a @ readlines_acc [] b"
proof (induction a arbitrary: cur)
  case Nil
  then show ?case by simp
next
  case (Cons c a)
  show ?case
  proof (cases "a = []")
    case True
    then show ?thesis using Cons.prems by simp
  next
    case False
    then have "last a = LF" using Cons.prems by simp
    then show ?thesis using Cons.IH False by simp
  qed
qed

lemma readlines_append_line:
  assumes "complete_text c" and "LF \<notin> set l"
  shows "readlines (c @ l @ [LF]) = readlines c @ [l @ [LF]]"
proof (cases "c = []")
  case True
  then show ?thesis using assms(2) by (simp add: readlines_def readlines_acc_line)
next
  case False
  then have "last c = LF" using assms(1) by (simp add: complete_text_def)
  then show ?thesis
    using False assms(2) by (simp add: readlines_def readlines_acc_append readlines_acc_line)
qed

lemma rstrip_line: "LF \<notin> set l \<Longrightarrow> rstrip_char LF (l @ [LF]) = l"
proof -
  assume a: "LF \<notin> set l"
  have "dropWhile (\<lambda>x. x = LF) (rev l) = rev l"
    using a by (cases "rev l") auto
  then show ?thesis by (simp add: rstrip_char_def)
qed

lemma history_lines_append:
  assumes "complete_text c" and "clean_line l"
  shows "history_lines (c @ l @ [LF]) = history_lines c @ [l]"
proof -
  have l: "LF \<notin> set l" "CR \<notin> set l" using assms(2) by (simp_all add: clean_line_def)
  have "c = [] \<or> last c \<noteq> CR" using assms(1) by (auto simp: complete_text_def)
  then have "universal_newlines (c @ l @ [LF]) = universal_newlines c @ universal_newlines (l @ [LF])"
    by (rule universal_newlines_append)
  also have "universal_newlines (l @ [LF]) = l @ [LF]"
    using l by (intro universal_newlines_plain) simp
  finally have u: "universal_newlines (c @ l @ [LF]) = universal_newlines c @ l @ [LF]" .
  have "complete_text (universal_newlines c)"
  proof (cases "c = []")
    case True
    then show ?thesis by (simp add: complete_text_def)
  next
    case False
    then have "last c = LF" using assms(1) by (simp add: complete_text_def)
    then show ?thesis using False universal_newlines_last [of c] by (simp add: complete_text_def)
  qed
  then have "readlines (universal_newlines c @ l @ [LF]) = readlines (universal_newlines c) @ [l @ [LF]]"
    using l(1) by (rule readlines_append_line)
  then show ?thesis using u l(1) by (simp add: history_lines_def rstrip_line)
qed

lemma complete_text_append: "complete_text (c @ l @ [LF])"
  by (simp add: complete_text_def)

lemma HISTORY_FILE_fs [simp]: "HISTORY_FILE (w\<lparr>w_fs := f\<rparr>) = HISTORY_FILE w"
  by (simp add: HISTORY_FILE_def)

lemma HISTORY_FILE_nonempty: "HISTORY_FILE w \<noteq> []"
  by (simp add: HISTORY_FILE_def path_div_nonempty)

text \<open>A file that can be opened for writing can be read at the same place.\<close>

lemma read_file_created:
  assumes "namei w p (names_of p) Create = Inr k" and "fs_lookup (w_fs w) k = Some (File c)"
  shows "read_file w p = Inr c"
proof -
  from assms(1) obtain f where p: "p \<noteq> []"
    and r: "resolve (w_fs w) 40 (start_dir w p) (names_of p) Create = Inr (f, k)"
    by (auto simp: namei_def split: if_splits sum.splits)
  from r have "resolve (w_fs w) 40 (start_dir w p) (names_of p) Follow = Inr (f, k)"
    by (rule resolve_create_follow)
  then show ?thesis using p assms(2) by (simp add: read_file_def os_stat_def found_def namei_def)
qed

lemma namei_put:
  assumes "fs_lookup (w_fs w) kn = None \<or> (\<exists>c. fs_lookup (w_fs w) kn = Some (File c))"
    and "\<forall>t. x \<noteq> Symlink t" and "namei w p names mode = Inr k"
  shows "namei (w\<lparr>w_fs := fs_put kn x (w_fs w)\<rparr>) p names mode = Inr k"
proof -
  from assms(3) obtain f where p: "p \<noteq> []"
    and r: "resolve (w_fs w) 40 (start_dir w p) names mode = Inr (f, k)"
    by (auto simp: namei_def split: if_splits sum.splits)
  from assms(1,2) r have "resolve (fs_put kn x (w_fs w)) 40 (start_dir w p) names mode = Inr (f, k)"
    by (rule resolve_put)
  then show ?thesis using p by (simp add: namei_def)
qed

lemma history_store_place:
  assumes "history_store w old"
  obtains k where "namei w (HISTORY_FILE w) (names_of (HISTORY_FILE w)) Create = Inr k"
    and "fs_lookup (w_fs w) k = Some (File old) \<or> (fs_lookup (w_fs w) k = None \<and> old = [])"
  using assms
  by (auto simp: history_store_def split: sum.splits option.splits node.splits)

lemma append_history_line_store:
  assumes "history_store w old"
  shows "\<exists>k. append_history_line l w = w\<lparr>w_fs := fs_put k (File (old @ l @ [LF])) (w_fs w)\<rparr>
           \<and> namei w (HISTORY_FILE w) (names_of (HISTORY_FILE w)) Create = Inr k
           \<and> (fs_lookup (w_fs w) k = None \<or> (\<exists>c. fs_lookup (w_fs w) k = Some (File c)))"
proof -
  obtain k where c: "namei w (HISTORY_FILE w) (names_of (HISTORY_FILE w)) Create = Inr k"
    and l: "fs_lookup (w_fs w) k = Some (File old) \<or> (fs_lookup (w_fs w) k = None \<and> old = [])"
    using assms by (rule history_store_place)
  have "append_file w (HISTORY_FILE w) (l @ [LF])
          = Inr (w\<lparr>w_fs := fs_put k (File (old @ l @ [LF])) (w_fs w)\<rparr>)"
    using c l by (auto simp: append_file_def)
  then have "append_history_line l w = w\<lparr>w_fs := fs_put k (File (old @ l @ [LF])) (w_fs w)\<rparr>"
    by (simp add: append_history_line_def)
  then show ?thesis using c l by auto
qed

lemma history_store_append:
  assumes "history_store w old"
  shows "history_store (append_history_line l w) (old @ l @ [LF])"
proof -
  obtain k where a: "append_history_line l w = w\<lparr>w_fs := fs_put k (File (old @ l @ [LF])) (w_fs w)\<rparr>"
    and c: "namei w (HISTORY_FILE w) (names_of (HISTORY_FILE w)) Create = Inr k"
    and f: "fs_lookup (w_fs w) k = None \<or> (\<exists>c. fs_lookup (w_fs w) k = Some (File c))"
    using append_history_line_store [OF assms, of l] by blast
  have k: "k \<noteq> []" using f by auto
  have "namei (w\<lparr>w_fs := fs_put k (File (old @ l @ [LF])) (w_fs w)\<rparr>) (HISTORY_FILE w)
          (names_of (HISTORY_FILE w)) Create = Inr k"
    using f _ c by (rule namei_put) simp
  then show ?thesis using a k by (simp add: history_store_def fs_lookup_put)
qed

lemma read_history_store:
  assumes "history_store w old" and "old \<noteq> []"
  shows "read_file w (HISTORY_FILE w) = Inr old"
proof -
  obtain k where c: "namei w (HISTORY_FILE w) (names_of (HISTORY_FILE w)) Create = Inr k"
    and l: "fs_lookup (w_fs w) k = Some (File old) \<or> (fs_lookup (w_fs w) k = None \<and> old = [])"
    using assms(1) by (rule history_store_place)
  from l assms(2) have "fs_lookup (w_fs w) k = Some (File old)" by simp
  with c show ?thesis by (rule read_file_created)
qed

lemma history_store_fold:
  "history_store w old \<Longrightarrow>
     history_store (fold append_history_line ls w) (old @ concat (map (\<lambda>l. l @ [LF]) ls))"
proof (induction ls arbitrary: w old)
  case Nil
  then show ?case by simp
next
  case (Cons l ls)
  have "history_store (append_history_line l w) (old @ l @ [LF])"
    using Cons.prems by (rule history_store_append)
  from Cons.IH [OF this] show ?case by simp
qed

lemma read_history_fold:
  assumes "history_store w old" and "ls \<noteq> []"
  shows "read_file (fold append_history_line ls w) (HISTORY_FILE (fold append_history_line ls w))
           = Inr (old @ concat (map (\<lambda>l. l @ [LF]) ls))"
proof -
  have "history_store (fold append_history_line ls w) (old @ concat (map (\<lambda>l. l @ [LF]) ls))"
    using assms(1) by (rule history_store_fold)
  moreover have "old @ concat (map (\<lambda>l. l @ [LF]) ls) \<noteq> []"
    using assms(2) by (cases ls) simp_all
  ultimately show ?thesis by (rule read_history_store)
qed

lemma history_lines_concat:
  "complete_text old \<Longrightarrow> \<forall>l \<in> set ls. clean_line l \<Longrightarrow>
     history_lines (old @ concat (map (\<lambda>l. l @ [LF]) ls)) = history_lines old @ ls"
proof (induction ls arbitrary: old)
  case Nil
  then show ?case by simp
next
  case (Cons l ls)
  have c: "complete_text (old @ l @ [LF])" by (rule complete_text_append)
  have "history_lines ((old @ l @ [LF]) @ concat (map (\<lambda>l. l @ [LF]) ls))
          = history_lines (old @ l @ [LF]) @ ls"
    using Cons.IH [OF c] Cons.prems(2) by simp
  also have "history_lines (old @ l @ [LF]) = history_lines old @ [l]"
    using Cons.prems by (intro history_lines_append) simp_all
  finally show ?case by simp
qed

lemma numbered_nth:
  "i < length xs \<Longrightarrow> numbered xs ! i = str_of_nat (i + 1) @ '': '' @ xs ! i"
  by (simp add: numbered_def nth_enumerate_eq)

lemma history_lines_empty: "history_lines [] = []"
  by (simp add: history_lines_def readlines_def)


text \<open>What \<open>input\<close> does to a session: the state of the process stays, and at a
  terminal the line editor puts the line at the end of its list.\<close>

lemma input_recorded_world [simp]: "s_world (input_recorded line s) = s_world s"
  by (simp add: input_recorded_def split: option.splits)

lemma session_append_history_line:
  "op_append_history_line (session_ops rl base) line s
     = s\<lparr>s_world := append_history_line line (s_world s)\<rparr>"
  by (simp add: session_ops_def)

lemma input_recorded_editor:
  "s_editor s = Some h \<Longrightarrow> s_terminal s \<Longrightarrow> line \<noteq> [] \<Longrightarrow> h = [] \<or> last h \<noteq> line \<Longrightarrow>
     s_editor (input_recorded line s) = Some (h @ [line])"
  by (simp add: input_recorded_def)

text \<open>
  Claim C6, as amended. From a history file that is missing or holds complete lines,
  appending lines that hold no carriage return and no line feed and then listing the
  history gives the lines that were there followed by the appended lines, in the order
  they were appended, each after its number counted from 1 (\<open>1: \<close>, \<open>2: \<close>, ...); from
  an empty or missing file these are the appended lines alone. While the session runs, a
  line of whitespace only is skipped by the loop before anything is appended: the state
  of the process stays as it is, and so does the listed history; only the line editor
  has taken the line into its own list.
\<close>

theorem history_lists_appended_lines:
  assumes "history_store w old" and "complete_text old"
    and "\<forall>l \<in> set ls. clean_line l" and "ls \<noteq> []"
  shows "cmd_history args (fold append_history_line ls w)
           = join [LF] (numbered (history_lines old @ ls))
       \<and> (old = [] \<longrightarrow> cmd_history args (fold append_history_line ls w) = join [LF] (numbered ls))
       \<and> (\<forall>i < length ls.
             numbered (history_lines old @ ls) ! (length (history_lines old) + i)
               = str_of_nat (length (history_lines old) + i + 1) @ '': '' @ ls ! i)
       \<and> (op_getcwd base s = Inr cwd \<and> str_strip line = [] \<longrightarrow>
             loop (session_ops rl base) (Line line # rest) s
               = loop (session_ops rl base) rest (input_recorded line s)
             \<and> s_world (input_recorded line s) = s_world s
             \<and> cmd_history args (s_world (input_recorded line s)) = cmd_history args (s_world s))"
proof -
  let ?w' = "fold append_history_line ls w"
  have "read_file ?w' (HISTORY_FILE ?w') = Inr (old @ concat (map (\<lambda>l. l @ [LF]) ls))"
    using assms(1,4) by (rule read_history_fold)
  moreover have "history_lines (old @ concat (map (\<lambda>l. l @ [LF]) ls)) = history_lines old @ ls"
    using assms(2,3) by (rule history_lines_concat)
  ultimately have 1: "cmd_history args ?w' = join [LF] (numbered (history_lines old @ ls))"
    by (simp add: cmd_history_def)
  have 2: "old = [] \<longrightarrow> cmd_history args ?w' = join [LF] (numbered ls)"
    using 1 by (simp add: history_lines_empty)
  have 3: "\<forall>i < length ls.
             numbered (history_lines old @ ls) ! (length (history_lines old) + i)
               = str_of_nat (length (history_lines old) + i + 1) @ '': '' @ ls ! i"
    by (simp add: numbered_nth)
  have 4: "op_getcwd base s = Inr cwd \<and> str_strip line = [] \<longrightarrow>
             loop (session_ops rl base) (Line line # rest) s
               = loop (session_ops rl base) rest (input_recorded line s)
             \<and> s_world (input_recorded line s) = s_world s
             \<and> cmd_history args (s_world (input_recorded line s)) = cmd_history args (s_world s)"
    by (simp add: session_ops_def)
  show ?thesis using 1 2 3 4 by blast
qed

text \<open>
  Claim C6 as stated fails for a line that holds a carriage return: the line is written
  as it is, read back with the carriage return turned into a line break, and listed as
  two entries.
\<close>

theorem history_carriage_return_counterexample:
  "history_store example_world []
   \<and> str_strip (''a'' @ [CR] @ ''b'') \<noteq> []
   \<and> cmd_history [] (fold append_history_line [''a'' @ [CR] @ ''b''] example_world)
        = ''1: a'' @ [LF] @ ''2: b''
   \<and> cmd_history [] (fold append_history_line [''a'' @ [CR] @ ''b''] example_world)
        \<noteq> join [LF] (numbered [''a'' @ [CR] @ ''b''])"
  by code_simp

theorem history_lists_appended_lines_witness:
  "history_store example_world [] \<and> complete_text []
   \<and> clean_line ''ls -l'' \<and> clean_line ''cd /tmp'' \<and> clean_line ''pwd''
   \<and> cmd_history [] (fold append_history_line [''ls -l'', ''cd /tmp'', ''pwd''] example_world)
        = ''1: ls -l'' @ [LF] @ ''2: cd /tmp'' @ [LF] @ ''3: pwd''
   \<and> op_getcwd example_base example_session = Inr ''/home/u'' \<and> str_strip ''   '' = []
   \<and> loop (session_ops example_readline example_base) [Line ''   '', Line ''history''] example_session
        = loop (session_ops example_readline example_base) [Line ''history'']
            (input_recorded ''   '' example_session)
   \<and> s_editor (input_recorded ''   '' example_session) = Some [''   '']
   \<and> snd (snd (loop (session_ops example_readline example_base) [Line ''   '', Line ''history'']
                  example_session)) = [''1: history'']"
proof -
  have 1: "history_store example_world []" by code_simp
  have 2: "complete_text []" by (simp add: complete_text_def)
  have c: "clean_line ''ls -l''" "clean_line ''cd /tmp''" "clean_line ''pwd''" by code_simp+
  then have 3: "\<forall>l \<in> set [''ls -l'', ''cd /tmp'', ''pwd'']. clean_line l" by simp
  have 4: "[''ls -l'', ''cd /tmp'', ''pwd''] \<noteq> []" by simp
  have n: "join [LF] (numbered [''ls -l'', ''cd /tmp'', ''pwd''])
             = ''1: ls -l'' @ [LF] @ ''2: cd /tmp'' @ [LF] @ ''3: pwd''" by code_simp
  have g: "op_getcwd example_base example_session = Inr ''/home/u''" by code_simp
  have b: "str_strip ''   '' = []" by code_simp
  have e: "s_editor (input_recorded ''   '' example_session) = Some [''   '']" by code_simp
  have o: "snd (snd (loop (session_ops example_readline example_base) [Line ''   '', Line ''history'']
                  example_session)) = [''1: history'']" by code_simp
  from history_lists_appended_lines [OF 1 2 3 4, of "[]" example_base example_session "''/home/u''" "''   ''"
      example_readline "[Line ''history'']"]
  have "cmd_history [] (fold append_history_line [''ls -l'', ''cd /tmp'', ''pwd''] example_world)
          = join [LF] (numbered [''ls -l'', ''cd /tmp'', ''pwd''])"
    and "loop (session_ops example_readline example_base) (Line ''   '' # [Line ''history'']) example_session
           = loop (session_ops example_readline example_base) [Line ''history'']
               (input_recorded ''   '' example_session)"
    using g b by blast+
  then show ?thesis using 1 2 c n g b e o by simp
qed

text \<open>
  When the session ends, the line editor writes its list to the history file. With a
  library that writes one line for each entry, the line of whitespace is in the file
  after the session, before the line that the loop had appended.
\<close>

lemma blank_line_written_at_exit:
  "fst (main_loop (session_ops example_readline example_base) [Line ''   '', Line ''exit''] example_session)
     = Exited
   \<and> cmd_history []
        (s_world (fst (snd (loop (session_ops example_readline example_base)
                              [Line ''   '', Line ''exit''] example_session))))
       = ''1: exit''
   \<and> cmd_history []
        (s_world (fst (snd (main_loop (session_ops example_readline example_base)
                              [Line ''   '', Line ''exit''] example_session))))
       = ''1:    '' @ [LF] @ ''2: exit''"
  by code_simp

end
